theory Spec2Isabelle
  imports Main
begin

section \<open>Python values, exceptions and the builtins the module relies on\<close>

text \<open>
  The module \<^verbatim>\<open>channel.py\<close> works on decoded JSON (\<^verbatim>\<open>JsonType\<close>): dynamically typed
  values built from \<^verbatim>\<open>None\<close>, booleans, integers, strings, lists and dictionaries.
  A dictionary is an association list in insertion order, the first binding of a key being
  the one a lookup finds. Strings are lists of code points in the range 0..255; floats are
  not part of the model.
\<close>

datatype json =
    JNull
  | JBool bool
  | JInt int
  | JStr string
  | JArr "json list"
  | JObj "(string \<times> json) list"

text \<open>
  Exceptions are values. \<open>RequestError\<close> stands for whatever the client capability
  (\<^verbatim>\<open>gql_request\<close>, \<^verbatim>\<open>_session.get\<close>, \<^verbatim>\<open>_session.post\<close>) raises; the module catches
  nothing, so every exception leaves the function that met it.
\<close>

datatype error =
    KeyError string
  | TypeError
  | ValueError
  | AssertionError
  | UnicodeDecodeError
  | MinerException string
  | RequestError string

definition bindE :: "error + 'a \<Rightarrow> ('a \<Rightarrow> error + 'b) \<Rightarrow> error + 'b" where
  "bindE m f = (case m of Inl e \<Rightarrow> Inl e | Inr x \<Rightarrow> f x)"

text \<open>\<^verbatim>\<open>obj[key]\<close> with a string key: only a dictionary can be subscripted that way.\<close>

fun getitem :: "json \<Rightarrow> string \<Rightarrow> error + json" where
  "getitem (JObj kvs) k = (case map_of kvs k of None \<Rightarrow> Inl (KeyError k) | Some v \<Rightarrow> Inr v)"
| "getitem JNull k = Inl TypeError"
| "getitem (JBool b) k = Inl TypeError"
| "getitem (JInt n) k = Inl TypeError"
| "getitem (JStr s) k = Inl TypeError"
| "getitem (JArr xs) k = Inl TypeError"

text \<open>Truth value testing, as \<^verbatim>\<open>if response:\<close> does it.\<close>

fun truthy :: "json \<Rightarrow> bool" where
  "truthy JNull = False"
| "truthy (JBool b) = b"
| "truthy (JInt n) = (n \<noteq> 0)"
| "truthy (JStr s) = (s \<noteq> [])"
| "truthy (JArr xs) = (xs \<noteq> [])"
| "truthy (JObj kvs) = (kvs \<noteq> [])"

text \<open>
  Iterating a value, as a generator expression \<^verbatim>\<open>for tag in x\<close> does: a list yields its
  elements, a dictionary its keys, a string its one-character strings; anything else is
  not iterable.
\<close>

fun py_iter :: "json \<Rightarrow> error + json list" where
  "py_iter (JArr xs) = Inr xs"
| "py_iter (JObj kvs) = Inr (map (\<lambda>kv. JStr (fst kv)) kvs)"
| "py_iter (JStr s) = Inr (map (\<lambda>c. JStr [c]) s)"
| "py_iter JNull = Inl TypeError"
| "py_iter (JBool b) = Inl TypeError"
| "py_iter (JInt n) = Inl TypeError"

subsection \<open>\<^verbatim>\<open>int(x)\<close>\<close>

text \<open>
  \<^verbatim>\<open>int\<close> of a string strips surrounding whitespace, reads an optional sign and then
  decimal digits, where single underscores may stand between digits. The whitespace code
  points below 256 are 9..13, 32, 133 and 160. (The interpreter's configurable limit on
  the number of digits is not modelled.)
\<close>

definition is_space :: "char \<Rightarrow> bool" where
  "is_space c = (let n = (of_char c :: nat) in
     (9 \<le> n \<and> n \<le> 13) \<or> n = 32 \<or> n = 133 \<or> n = 160)"

definition is_digit :: "char \<Rightarrow> bool" where
  "is_digit c = (let n = (of_char c :: nat) in 48 \<le> n \<and> n \<le> 57)"

definition digit_val :: "char \<Rightarrow> nat" where
  "digit_val c = of_char c - 48"

definition strip :: "string \<Rightarrow> string" where
  "strip s = rev (dropWhile is_space (rev (dropWhile is_space s)))"

text \<open>
  \<open>parse_digits prev acc s\<close>: \<open>prev\<close> says that the character before \<open>s\<close> was a digit,
  which is when an underscore may follow and when the text may end.
\<close>

fun parse_digits :: "bool \<Rightarrow> nat \<Rightarrow> string \<Rightarrow> nat option" where
  "parse_digits prev acc [] = (if prev then Some acc else None)"
| "parse_digits prev acc (c # cs) =
     (if is_digit c then parse_digits True (acc * 10 + digit_val c) cs
      else if c = CHR ''_'' \<and> prev then parse_digits False acc cs
      else None)"

definition int_of_str :: "string \<Rightarrow> error + int" where
  "int_of_str s =
     (case strip s of
        [] \<Rightarrow> Inl ValueError
      | c # cs \<Rightarrow>
          if c = CHR ''-'' then
            (case parse_digits False 0 cs of None \<Rightarrow> Inl ValueError | Some n \<Rightarrow> Inr (- int n))
          else if c = CHR ''+'' then
            (case parse_digits False 0 cs of None \<Rightarrow> Inl ValueError | Some n \<Rightarrow> Inr (int n))
          else
            (case parse_digits False 0 (c # cs) of None \<Rightarrow> Inl ValueError | Some n \<Rightarrow> Inr (int n)))"

fun py_int :: "json \<Rightarrow> error + int" where
  "py_int (JInt n) = Inr n"
| "py_int (JBool b) = Inr (if b then 1 else 0)"
| "py_int (JStr s) = int_of_str s"
| "py_int JNull = Inl TypeError"
| "py_int (JArr xs) = Inl TypeError"
| "py_int (JObj kvs) = Inl TypeError"

section \<open>Stream\<close>

text \<open>
  The snapshot of one live session. \<^verbatim>\<open>broadcast_id\<close>, \<^verbatim>\<open>viewer_count\<close> and \<^verbatim>\<open>title\<close>
  hold whatever value the constructor stored, so they are dynamically typed here as well.
  The references \<^verbatim>\<open>_twitch\<close> and \<^verbatim>\<open>channel\<close> point back to the owners and carry no
  data of their own; \<^verbatim>\<open>_timestamp\<close> is the clock reading passed in as \<open>now\<close>.

  \<^verbatim>\<open>Game\<close> (module \<^verbatim>\<open>inventory\<close>) and \<^verbatim>\<open>DROPS_ENABLED_TAG\<close> (module \<^verbatim>\<open>constants\<close>, a
  string) are not part of this file of the repository: the constructor of games is the
  parameter \<open>Game\<close>, which may raise, and the tag id is the parameter \<open>TAG\<close>.
\<close>

record 'g Stream =
  broadcast_id :: json
  viewer_count :: json
  drops_enabled :: bool
  game :: "'g option"
  title :: json
  timestamp :: nat

text \<open>
  \<^verbatim>\<open>any(tag["id"] == DROPS_ENABLED_TAG for tag in tags)\<close>: the generator is consumed from
  the left and \<^verbatim>\<open>any\<close> stops at the first true element, so a later malformed tag is
  never subscripted; an earlier one raises.
\<close>

fun any_drops_tag :: "string \<Rightarrow> json list \<Rightarrow> error + bool" where
  "any_drops_tag TAG [] = Inr False"
| "any_drops_tag TAG (tag # rest) =
     bindE (getitem tag ''id'')
       (\<lambda>i. if i = JStr TAG then Inr True else any_drops_tag TAG rest)"

definition tags_enabled :: "string \<Rightarrow> json \<Rightarrow> error + bool" where
  "tags_enabled TAG tags = bindE (py_iter tags) (any_drops_tag TAG)"

text \<open>\<^verbatim>\<open>Stream.__init__(self, channel, data)\<close>, statement by statement.\<close>

definition Stream_init ::
  "string \<Rightarrow> (json \<Rightarrow> error + 'g) \<Rightarrow> nat \<Rightarrow> json \<Rightarrow> error + 'g Stream" where
  "Stream_init TAG Game now data =
     bindE (getitem data ''stream'') (\<lambda>stream.
     bindE (getitem stream ''id'') (\<lambda>sid.
     bindE (py_int sid) (\<lambda>bid.
     bindE (getitem stream ''viewersCount'') (\<lambda>vc.
     bindE (getitem stream ''tags'') (\<lambda>tags.
     bindE (tags_enabled TAG tags) (\<lambda>de.
     bindE (getitem data ''broadcastSettings'') (\<lambda>settings.
     bindE (getitem settings ''game'') (\<lambda>g.
     bindE (if g \<noteq> JNull then bindE (Game g) (\<lambda>gm. Inr (Some gm)) else Inr None) (\<lambda>gm.
     bindE (getitem settings ''title'') (\<lambda>t.
       Inr \<lparr>broadcast_id = JInt bid, viewer_count = vc, drops_enabled = de,
            game = gm, title = t, timestamp = now\<rparr>))))))))))"

text \<open>\<^verbatim>\<open>Stream.from_directory(cls, channel, data)\<close>.\<close>

definition Stream_from_directory ::
  "string \<Rightarrow> (json \<Rightarrow> error + 'g) \<Rightarrow> nat \<Rightarrow> json \<Rightarrow> error + 'g Stream" where
  "Stream_from_directory TAG Game now data =
     bindE (getitem data ''id'') (\<lambda>bid.
     bindE (getitem data ''viewersCount'') (\<lambda>vc.
     bindE (getitem data ''tags'') (\<lambda>tags.
     bindE (tags_enabled TAG tags) (\<lambda>de.
     bindE (getitem data ''game'') (\<lambda>g.
     bindE (Game g) (\<lambda>gm.
     bindE (getitem data ''title'') (\<lambda>t.
       Inr \<lparr>broadcast_id = bid, viewer_count = vc, drops_enabled = de,
            game = Some gm, title = t, timestamp = now\<rparr>)))))))"

section \<open>Channel\<close>

text \<open>
  The fields of \<^verbatim>\<open>Channel\<close>. The names \<^verbatim>\<open>id\<close>, \<^verbatim>\<open>_spade_url\<close> and
  \<^verbatim>\<open>_pending_stream_up\<close> are written \<open>id_chan\<close>, \<open>spade_url\<close> and \<open>pending_stream_up\<close>.
  The pending task is referred to by its handle, the index of the task in the table of
  tasks the event loop holds.
\<close>

record 'g Channel =
  id_chan :: int
  name :: string
  url :: string
  spade_url :: "string option"
  stream :: "'g Stream option"
  pending_stream_up :: "nat option"

text \<open>
  The assignments of \<^verbatim>\<open>Channel.__init__\<close> up to its first \<^verbatim>\<open>await self.get_stream()\<close>;
  \<^verbatim>\<open>BASE_URL\<close> is a constant of the module \<^verbatim>\<open>constants\<close>.
\<close>

definition Channel_init :: "string \<Rightarrow> string \<Rightarrow> 'g Channel" where
  "Channel_init BASE_URL channel_name =
     \<lparr>id_chan = 0, name = channel_name, url = BASE_URL @ ''/'' @ channel_name,
      spade_url = None, stream = None, pending_stream_up = None\<rparr>"

definition online :: "'g Channel \<Rightarrow> bool" where
  "online ch = (stream ch \<noteq> None)"

definition pending_online :: "'g Channel \<Rightarrow> bool" where
  "pending_online ch = (pending_stream_up ch \<noteq> None)"

subsection \<open>Reconciliation\<close>

text \<open>
  \<^verbatim>\<open>get_stream\<close> suspends once, at \<^verbatim>\<open>await self._twitch.gql_request(...)\<close>; what it
  does afterwards is a function of the outcome \<open>gql\<close> of that request (an exception, or the
  response) and of the channel as it is when the coroutine resumes. The result is the
  channel as the call leaves it, also when it raises, together with the return value or
  the exception.
\<close>

definition get_stream ::
  "string \<Rightarrow> (json \<Rightarrow> error + 'g) \<Rightarrow> nat \<Rightarrow> error + json \<Rightarrow> 'g Channel
     \<Rightarrow> 'g Channel \<times> (error + 'g Stream option)" where
  "get_stream TAG Game now gql ch =
     (case gql of
        Inl e \<Rightarrow> (ch, Inl e)
      | Inr response \<Rightarrow>
          if truthy response then
            (case bindE (getitem response ''data'') (\<lambda>d. getitem d ''user'') of
               Inl e \<Rightarrow> (ch, Inl e)
             | Inr stream_data \<Rightarrow>
                 (case bindE (getitem stream_data ''id'') py_int of
                    Inl e \<Rightarrow> (ch, Inl e)
                  | Inr i \<Rightarrow>
                      let ch1 = ch\<lparr>id_chan := i\<rparr> in
                      (case getitem stream_data ''stream'' of
                         Inl e \<Rightarrow> (ch1, Inl e)
                       | Inr s \<Rightarrow>
                           if truthy s then
                             (case Stream_init TAG Game now stream_data of
                                Inl e \<Rightarrow> (ch1, Inl e)
                              | Inr st \<Rightarrow> (ch1\<lparr>stream := Some st\<rparr>, Inr (Some st)))
                           else (ch1\<lparr>stream := None\<rparr>, Inr None))))
          else (ch, Inr (stream ch)))"

text \<open>\<^verbatim>\<open>check_online\<close>: a reconciliation, then whether it returned a stream.\<close>

definition check_online ::
  "string \<Rightarrow> (json \<Rightarrow> error + 'g) \<Rightarrow> nat \<Rightarrow> error + json \<Rightarrow> 'g Channel
     \<Rightarrow> 'g Channel \<times> (error + bool)" where
  "check_online TAG Game now gql ch =
     (case get_stream TAG Game now gql ch of
        (ch', Inl e) \<Rightarrow> (ch', Inl e)
      | (ch', Inr st) \<Rightarrow> (ch', Inr (st \<noteq> None)))"

subsection \<open>The delayed confirmation and the two signals\<close>

text \<open>
  \<^verbatim>\<open>_online_delay\<close> after its sleep: \<^verbatim>\<open>await self.get_stream()\<close>, then
  \<^verbatim>\<open>self._pending_stream_up = None\<close>. There is no \<^verbatim>\<open>try\<close> around the call, so the
  assignment is reached only when \<^verbatim>\<open>get_stream\<close> returns.
\<close>

definition online_delay ::
  "string \<Rightarrow> (json \<Rightarrow> error + 'g) \<Rightarrow> nat \<Rightarrow> error + json \<Rightarrow> 'g Channel
     \<Rightarrow> 'g Channel \<times> (error + unit)" where
  "online_delay TAG Game now gql ch =
     (case get_stream TAG Game now gql ch of
        (ch', Inl e) \<Rightarrow> (ch', Inl e)
      | (ch', Inr st) \<Rightarrow> (ch'\<lparr>pending_stream_up := None\<rparr>, Inr ()))"

text \<open>
  The tasks of the event loop. A task created by \<^verbatim>\<open>set_online\<close> runs \<^verbatim>\<open>_online_delay\<close>,
  which suspends twice: in \<^verbatim>\<open>asyncio.sleep\<close> (\<open>Sleeping\<close>, also before its first step)
  and in the request of \<^verbatim>\<open>get_stream\<close> (\<open>Querying\<close>). It ends by returning, by an
  exception, or cancelled. Scheduling is cooperative: between two suspension points
  nothing else runs, so a signal or a resumption is one atomic step.

  \<^verbatim>\<open>Task.cancel()\<close> on a task that has not ended makes its pending \<^verbatim>\<open>await\<close> raise
  \<^verbatim>\<open>CancelledError\<close> when the task is next resumed; neither \<^verbatim>\<open>asyncio.sleep\<close> nor the
  awaited request is taken to swallow it, so no further statement of \<^verbatim>\<open>_online_delay\<close>
  runs. On a task that has ended, \<^verbatim>\<open>cancel()\<close> does nothing.
\<close>

datatype task = Sleeping | Querying | Finished | Failed error | Cancelled

fun live :: "task \<Rightarrow> bool" where
  "live Sleeping = True"
| "live Querying = True"
| "live Finished = False"
| "live (Failed e) = False"
| "live Cancelled = False"

definition cancel :: "task \<Rightarrow> task" where
  "cancel t = (if live t then Cancelled else t)"

record 'g system =
  chan :: "'g Channel"
  tasks :: "task list"

text \<open>
  \<^verbatim>\<open>set_online\<close>: \<^verbatim>\<open>asyncio.create_task\<close> adds a task to the table and returns its
  handle.
\<close>

definition set_online :: "'g system \<Rightarrow> 'g system" where
  "set_online s =
     (if online (chan s) \<or> pending_online (chan s) then s
      else s\<lparr>chan := (chan s)\<lparr>pending_stream_up := Some (length (tasks s))\<rparr>,
             tasks := tasks s @ [Sleeping]\<rparr>)"

definition set_offline :: "'g system \<Rightarrow> 'g system" where
  "set_offline s =
     (let s1 = (case pending_stream_up (chan s) of
                  None \<Rightarrow> s
                | Some t \<Rightarrow>
                    s\<lparr>tasks := (if t < length (tasks s)
                                 then (tasks s)[t := cancel (tasks s ! t)] else tasks s),
                      chan := (chan s)\<lparr>pending_stream_up := None\<rparr>\<rparr>)
      in s1\<lparr>chan := (chan s1)\<lparr>stream := None\<rparr>\<rparr>)"

text \<open>
  What can happen to a channel: the two signals, a task's sleep running out, the answer to
  a task's request arriving, the answer to a request of a reconciliation called from
  outside (\<^verbatim>\<open>check_online\<close>, \<^verbatim>\<open>get_stream\<close>) arriving, and a watch ping storing the
  endpoint it has discovered.
\<close>

datatype event =
    SetOnline
  | SetOffline
  | SleepDone nat
  | QueryDone nat "error + json" nat
  | Reconciled "error + json" nat
  | EndpointCached string

definition sleep_done :: "nat \<Rightarrow> 'g system \<Rightarrow> 'g system" where
  "sleep_done t s =
     (if t < length (tasks s) \<and> tasks s ! t = Sleeping
      then s\<lparr>tasks := (tasks s)[t := Querying]\<rparr> else s)"

definition query_done ::
  "string \<Rightarrow> (json \<Rightarrow> error + 'g) \<Rightarrow> nat \<Rightarrow> error + json \<Rightarrow> nat \<Rightarrow> 'g system \<Rightarrow> 'g system" where
  "query_done TAG Game t gql now s =
     (if t < length (tasks s) \<and> tasks s ! t = Querying then
        (case online_delay TAG Game now gql (chan s) of
           (ch', Inl e) \<Rightarrow> s\<lparr>chan := ch', tasks := (tasks s)[t := Failed e]\<rparr>
         | (ch', Inr u) \<Rightarrow> s\<lparr>chan := ch', tasks := (tasks s)[t := Finished]\<rparr>)
      else s)"

fun step :: "string \<Rightarrow> (json \<Rightarrow> error + 'g) \<Rightarrow> 'g system \<Rightarrow> event \<Rightarrow> 'g system" where
  "step TAG Game s SetOnline = set_online s"
| "step TAG Game s SetOffline = set_offline s"
| "step TAG Game s (SleepDone t) = sleep_done t s"
| "step TAG Game s (QueryDone t gql now) = query_done TAG Game t gql now s"
| "step TAG Game s (Reconciled gql now) = s\<lparr>chan := fst (get_stream TAG Game now gql (chan s))\<rparr>"
| "step TAG Game s (EndpointCached u) = s\<lparr>chan := (chan s)\<lparr>spade_url := Some u\<rparr>\<rparr>"

definition run :: "string \<Rightarrow> (json \<Rightarrow> error + 'g) \<Rightarrow> 'g system \<Rightarrow> event list \<Rightarrow> 'g system" where
  "run TAG Game s evs = foldl (step TAG Game) s evs"

text \<open>A channel as either constructor leaves it: no task has been created yet.\<close>

definition fresh :: "'g Channel \<Rightarrow> 'g system" where
  "fresh ch = \<lparr>chan = ch\<lparr>pending_stream_up := None\<rparr>, tasks = []\<rparr>"

text \<open>
  Two facts about the table of tasks that hold along every run. \<open>owned\<close>: a task that has
  not ended is the one the channel refers to, and the channel refers to a task of the
  table. \<open>ended_upto n\<close>: the first \<open>n\<close> tasks of the table have ended.
\<close>

definition owned :: "'g system \<Rightarrow> bool" where
  "owned s =
     ((\<forall>t < length (tasks s). live (tasks s ! t) \<longrightarrow> pending_stream_up (chan s) = Some t) \<and>
      (\<forall>t. pending_stream_up (chan s) = Some t \<longrightarrow> t < length (tasks s)))"

definition ended_upto :: "nat \<Rightarrow> 'g system \<Rightarrow> bool" where
  "ended_upto n s = (n \<le> length (tasks s) \<and> (\<forall>t < n. \<not> live (tasks s ! t)))"

text \<open>\<open>quiet\<close>: no stream, and every task of the table has ended.\<close>

definition quiet :: "'g system \<Rightarrow> bool" where
  "quiet s = (stream (chan s) = None \<and> ended_upto (length (tasks s)) s)"

text \<open>The events that can bring a stream back by themselves, without a task.\<close>

fun brings_online :: "event \<Rightarrow> bool" where
  "brings_online SetOnline = True"
| "brings_online (Reconciled gql now) = True"
| "brings_online SetOffline = False"
| "brings_online (SleepDone t) = False"
| "brings_online (QueryDone t gql now) = False"
| "brings_online (EndpointCached u) = False"

section \<open>Regular expressions\<close>

text \<open>
  The two patterns of \<^verbatim>\<open>get_spade_url\<close> are built from literal characters, character
  classes, an optional character, a greedy repetition of a class and one capturing group.
  Both are compiled with \<^verbatim>\<open>re.I\<close>, so a literal letter matches either case; over the code
  points 0..255 no character outside ASCII is a case variant of an ASCII letter.
\<close>

datatype atom =
    Lit char
  | Cls "char \<Rightarrow> bool"
  | Opt char
  | Plus "char \<Rightarrow> bool"
  | GroupOpen
  | GroupClose

definition ascii_lower :: "char \<Rightarrow> char" where
  "ascii_lower c = (let n = (of_char c :: nat) in
     if 65 \<le> n \<and> n \<le> 90 then char_of (n + 32) else c)"

definition same_nocase :: "char \<Rightarrow> char \<Rightarrow> bool" where
  "same_nocase x c = (ascii_lower x = ascii_lower c)"

text \<open>
  \<open>rx_match p rec cap s\<close> matches the pattern \<open>p\<close> at the start of \<open>s\<close>, trying the
  alternatives in the order the backtracking matcher of \<^verbatim>\<open>re\<close> does (an optional item
  and a repetition take as much as they can first). \<open>cap\<close> is the text of the group so
  far, \<open>rec\<close> says that the position is inside the group (\<open>capture\<close> adds a
  character to the text when it is). The result is the text of the group for the first way
  the whole pattern matches.
\<close>

definition capture :: "bool \<Rightarrow> string \<Rightarrow> char \<Rightarrow> string" where
  "capture rec cap x = (if rec then cap @ [x] else cap)"

fun rx_match :: "atom list \<Rightarrow> bool \<Rightarrow> string \<Rightarrow> string \<Rightarrow> string option" where
  "rx_match [] rec cap s = Some cap"
| "rx_match (GroupOpen # p) rec cap s = rx_match p True cap s"
| "rx_match (GroupClose # p) rec cap s = rx_match p False cap s"
| "rx_match (Lit c # p) rec cap [] = None"
| "rx_match (Lit c # p) rec cap (x # xs) =
     (if same_nocase x c then rx_match p rec (capture rec cap x) xs else None)"
| "rx_match (Cls f # p) rec cap [] = None"
| "rx_match (Cls f # p) rec cap (x # xs) =
     (if f x then rx_match p rec (capture rec cap x) xs else None)"
| "rx_match (Opt c # p) rec cap [] = rx_match p rec cap []"
| "rx_match (Opt c # p) rec cap (x # xs) =
     (if same_nocase x c then
        (case rx_match p rec (capture rec cap x) xs of
           Some g \<Rightarrow> Some g
         | None \<Rightarrow> rx_match p rec cap (x # xs))
      else rx_match p rec cap (x # xs))"
| "rx_match (Plus f # p) rec cap [] = None"
| "rx_match (Plus f # p) rec cap (x # xs) =
     (if f x then
        (case rx_match (Plus f # p) rec (capture rec cap x) xs of
           Some g \<Rightarrow> Some g
         | None \<Rightarrow> rx_match p rec (capture rec cap x) xs)
      else None)"

text \<open>\<^verbatim>\<open>re.search(p, s).group(1)\<close>: the leftmost position at which the pattern matches.\<close>

fun re_search :: "atom list \<Rightarrow> string \<Rightarrow> string option" where
  "re_search p [] = rx_match p False [] []"
| "re_search p (x # xs) =
     (case rx_match p False [] (x # xs) of Some g \<Rightarrow> Some g | None \<Rightarrow> re_search p xs)"

text \<open>
  What a pattern matches, stated without a matcher: \<open>rx_cap p rec cap w g\<close> says that the
  whole of \<open>w\<close> is a match of \<open>p\<close> in which the group has the text \<open>g\<close> (\<open>rec\<close> and \<open>cap\<close>
  as in \<open>rx_match\<close>). \<open>rx_found p rec cap s g\<close> says that \<open>s\<close> starts with such a match.
\<close>

fun rx_cap :: "atom list \<Rightarrow> bool \<Rightarrow> string \<Rightarrow> string \<Rightarrow> string \<Rightarrow> bool" where
  "rx_cap [] rec cap w g = (w = [] \<and> g = cap)"
| "rx_cap (GroupOpen # p) rec cap w g = rx_cap p True cap w g"
| "rx_cap (GroupClose # p) rec cap w g = rx_cap p False cap w g"
| "rx_cap (Lit c # p) rec cap [] g = False"
| "rx_cap (Lit c # p) rec cap (x # xs) g =
     (same_nocase x c \<and> rx_cap p rec (capture rec cap x) xs g)"
| "rx_cap (Cls f # p) rec cap [] g = False"
| "rx_cap (Cls f # p) rec cap (x # xs) g = (f x \<and> rx_cap p rec (capture rec cap x) xs g)"
| "rx_cap (Opt c # p) rec cap [] g = rx_cap p rec cap [] g"
| "rx_cap (Opt c # p) rec cap (x # xs) g =
     (rx_cap p rec cap (x # xs) g \<or>
      (same_nocase x c \<and> rx_cap p rec (capture rec cap x) xs g))"
| "rx_cap (Plus f # p) rec cap [] g = False"
| "rx_cap (Plus f # p) rec cap (x # xs) g =
     (f x \<and> (rx_cap p rec (capture rec cap x) xs g \<or>
             rx_cap (Plus f # p) rec (capture rec cap x) xs g))"

definition rx_found :: "atom list \<Rightarrow> bool \<Rightarrow> string \<Rightarrow> string \<Rightarrow> string \<Rightarrow> bool" where
  "rx_found p rec cap s g = (\<exists>w v. s = w @ v \<and> rx_cap p rec cap w g)"

definition lits :: "string \<Rightarrow> atom list" where
  "lits s = map Lit s"

text \<open>\<^verbatim>\<open>[0-9a-f]\<close> under \<^verbatim>\<open>re.I\<close>.\<close>

definition is_hex :: "char \<Rightarrow> bool" where
  "is_hex c = (let n = (of_char c :: nat) in
     (48 \<le> n \<and> n \<le> 57) \<or> (97 \<le> n \<and> n \<le> 102) \<or> (65 \<le> n \<and> n \<le> 70))"

text \<open>
  \<^verbatim>\<open>\w\<close> on text: an alphanumeric character or the underscore. Below 256 the alphanumeric
  code points are the ASCII digits and letters, 170, 178, 179, 181, 185, 186, 188..190,
  192..214, 216..246 and 248..255.
\<close>

definition is_word :: "char \<Rightarrow> bool" where
  "is_word c = (let n = (of_char c :: nat) in
     (48 \<le> n \<and> n \<le> 57) \<or> (65 \<le> n \<and> n \<le> 90) \<or> (97 \<le> n \<and> n \<le> 122) \<or> n = 95 \<or>
     n = 170 \<or> n = 178 \<or> n = 179 \<or> n = 181 \<or> n = 185 \<or> n = 186 \<or>
     (188 \<le> n \<and> n \<le> 190) \<or> (192 \<le> n \<and> n \<le> 214) \<or> (216 \<le> n \<and> n \<le> 246) \<or>
     (248 \<le> n \<and> n \<le> 255))"

text \<open>\<^verbatim>\<open>[.\w\-/]\<close>.\<close>

definition is_spade_char :: "char \<Rightarrow> bool" where
  "is_spade_char c = (c = CHR ''.'' \<or> is_word c \<or> c = CHR ''-'' \<or> c = CHR ''/'')"

text \<open>\<^verbatim>\<open>src="(https://static\.twitchcdn\.net/config/settings\.[0-9a-f]{32}\.js)"\<close>\<close>

definition settings_pattern :: "atom list" where
  "settings_pattern =
     lits ''src=\"'' @ [GroupOpen] @ lits ''https://static.twitchcdn.net/config/settings.'' @
     replicate 32 (Cls is_hex) @ lits ''.js'' @ [GroupClose] @ lits ''\"''"

text \<open>\<^verbatim>\<open>"spade_url": ?"(https://video-edge-[.\w\-/]+\.ts)"\<close>\<close>

definition spade_pattern :: "atom list" where
  "spade_pattern =
     lits ''\"spade_url\":'' @ [Opt CHR '' ''] @ lits ''\"'' @ [GroupOpen] @
     lits ''https://video-edge-'' @ [Plus is_spade_char] @ lits ''.ts'' @ [GroupClose] @
     lits ''\"''"

section \<open>The client capability and endpoint discovery\<close>

text \<open>
  What the module uses of the \<^verbatim>\<open>Twitch\<close> client: the user id, and the HTTP session. A
  \<^verbatim>\<open>GET\<close> gives the text of the response, a \<^verbatim>\<open>POST\<close> its status, or either raises. Every
  request a function makes is recorded, in order.
\<close>

record Twitch =
  user_id :: int
  session_get :: "string \<Rightarrow> error + string"
  session_post :: "string \<Rightarrow> (string \<times> string) list \<Rightarrow> error + int"

datatype request = GET string | POST string "(string \<times> string) list"

definition get_spade_url :: "Twitch \<Rightarrow> 'g Channel \<Rightarrow> request list \<times> (error + string)" where
  "get_spade_url tw ch =
     (case session_get tw (url ch) of
        Inl e \<Rightarrow> ([GET (url ch)], Inl e)
      | Inr streamer_html \<Rightarrow>
          (case re_search settings_pattern streamer_html of
             None \<Rightarrow> ([GET (url ch)],
                      Inl (MinerException ''Error while spade_url extraction: step #1''))
           | Some streamer_settings \<Rightarrow>
               (case session_get tw streamer_settings of
                  Inl e \<Rightarrow> ([GET (url ch), GET streamer_settings], Inl e)
                | Inr settings_js \<Rightarrow>
                    (case re_search spade_pattern settings_js of
                       None \<Rightarrow> ([GET (url ch), GET streamer_settings],
                                Inl (MinerException ''Error while spade_url extraction: step #2''))
                     | Some m \<Rightarrow> ([GET (url ch), GET streamer_settings], Inr m)))))"

section \<open>The watch ping\<close>

subsection \<open>\<^verbatim>\<open>json.dumps(payload, separators=(",", ":"))\<close>\<close>

text \<open>
  Integers are written in decimal, with a minus sign when negative. In a string (with the
  default \<^verbatim>\<open>ensure_ascii\<close>) the quote and the backslash are escaped with a backslash,
  backspace, tab, newline, form feed and carriage return have their letter escapes, the
  other characters outside the range 32..126 are written as \<^verbatim>\<open>\u00XX\<close> with lower-case
  hexadecimal digits. With the separators given, nothing is written between the items.
\<close>

function show_nat :: "nat \<Rightarrow> string" where
  "show_nat n =
     (if n < 10 then [char_of (48 + n)] else show_nat (n div 10) @ [char_of (48 + n mod 10)])"
  by pat_completeness auto
termination
  by (relation "measure (\<lambda>n. n)") auto

declare show_nat.simps [simp del]

definition show_int :: "int \<Rightarrow> string" where
  "show_int i = (if i < 0 then CHR ''-'' # show_nat (nat (- i)) else show_nat (nat i))"

definition hex_digit :: "nat \<Rightarrow> char" where
  "hex_digit n = (if n < 10 then char_of (48 + n) else char_of (87 + n))"

definition esc_char :: "char \<Rightarrow> string" where
  "esc_char c = (let n = (of_char c :: nat) in
     if n = 34 then [CHR 0x5C, CHR 0x22]
     else if n = 92 then [CHR 0x5C, CHR 0x5C]
     else if n = 10 then [CHR 0x5C, CHR ''n'']
     else if n = 13 then [CHR 0x5C, CHR ''r'']
     else if n = 9 then [CHR 0x5C, CHR ''t'']
     else if n = 8 then [CHR 0x5C, CHR ''b'']
     else if n = 12 then [CHR 0x5C, CHR ''f'']
     else if 32 \<le> n \<and> n \<le> 126 then [c]
     else [CHR 0x5C, CHR ''u'', CHR ''0'', CHR ''0'', hex_digit (n div 16), hex_digit (n mod 16)])"

definition dumps_str :: "string \<Rightarrow> string" where
  "dumps_str s = [CHR 0x22] @ concat (map esc_char s) @ [CHR 0x22]"

fun json_dumps :: "json \<Rightarrow> string"
  and dumps_list :: "json list \<Rightarrow> string"
  and dumps_items :: "(string \<times> json) list \<Rightarrow> string" where
  "json_dumps JNull = ''null''"
| "json_dumps (JBool b) = (if b then ''true'' else ''false'')"
| "json_dumps (JInt i) = show_int i"
| "json_dumps (JStr s) = dumps_str s"
| "json_dumps (JArr xs) = ''['' @ dumps_list xs @ '']''"
| "json_dumps (JObj kvs) = ''{'' @ dumps_items kvs @ ''}''"
| "dumps_list [] = []"
| "dumps_list [x] = json_dumps x"
| "dumps_list (x # y # ys) = json_dumps x @ '','' @ dumps_list (y # ys)"
| "dumps_items [] = []"
| "dumps_items [(k, v)] = dumps_str k @ '':'' @ json_dumps v"
| "dumps_items ((k, v) # kv # kvs) = dumps_str k @ '':'' @ json_dumps v @ '','' @ dumps_items (kv # kvs)"

subsection \<open>\<^verbatim>\<open>str.encode("utf8")\<close>, \<^verbatim>\<open>b64encode\<close>, \<^verbatim>\<open>bytes.decode("utf8")\<close>\<close>

text \<open>
  Bytes are characters as well. A code point below 128 is one byte, one from 128 to 255
  two. Decoding reads these two forms back; a byte sequence that is malformed, or that
  stands for a code point above 255 (outside the strings of this model), is an error.
\<close>

definition encode_utf8 :: "string \<Rightarrow> string" where
  "encode_utf8 s = concat (map (\<lambda>c. let n = (of_char c :: nat) in
     if n < 128 then [c] else [char_of (192 + n div 64), char_of (128 + n mod 64)]) s)"

fun decode_utf8 :: "string \<Rightarrow> error + string" where
  "decode_utf8 [] = Inr []"
| "decode_utf8 [c] =
     (if (of_char c :: nat) < 128 then Inr [c] else Inl UnicodeDecodeError)"
| "decode_utf8 (c # d # ds) =
     (let m = (of_char c :: nat); n = (of_char d :: nat) in
      if m < 128 then bindE (decode_utf8 (d # ds)) (\<lambda>r. Inr (c # r))
      else if (m = 194 \<or> m = 195) \<and> 128 \<le> n \<and> n < 192
      then bindE (decode_utf8 ds) (\<lambda>r. Inr (char_of ((m - 192) * 64 + (n - 128)) # r))
      else Inl UnicodeDecodeError)"

definition b64_alphabet :: string where
  "b64_alphabet = ''ABCDEFGHIJKLMNOPQRSTUVWXYZabcdefghijklmnopqrstuvwxyz0123456789+/''"

text \<open>The character for a six-bit value: its place in the alphabet.\<close>

definition b64chr :: "nat \<Rightarrow> char" where
  "b64chr n =
     (if n < 26 then char_of (65 + n)
      else if n < 52 then char_of (71 + n)
      else if n < 62 then char_of (n - 4)
      else if n = 62 then CHR ''+'' else CHR ''/'')"

fun b64encode :: "string \<Rightarrow> string" where
  "b64encode [] = []"
| "b64encode [a] =
     (let x = (of_char a :: nat) in
      [b64chr (x div 4), b64chr ((x mod 4) * 16), CHR ''='', CHR ''=''])"
| "b64encode [a, b] =
     (let x = (of_char a :: nat); y = (of_char b :: nat) in
      [b64chr (x div 4), b64chr ((x mod 4) * 16 + y div 16), b64chr ((y mod 16) * 4), CHR ''=''])"
| "b64encode (a # b # c # rest) =
     (let x = (of_char a :: nat); y = (of_char b :: nat); z = (of_char c :: nat) in
      [b64chr (x div 4), b64chr ((x mod 4) * 16 + y div 16),
       b64chr ((y mod 16) * 4 + z div 64), b64chr (z mod 64)] @ b64encode rest)"

subsection \<open>\<^verbatim>\<open>_encode_payload\<close> and \<^verbatim>\<open>_send_watch\<close>\<close>

text \<open>
  \<^verbatim>\<open>_encode_payload\<close> (here \<open>encode_payload\<close>); \<open>uid\<close> is \<^verbatim>\<open>self._twitch._user_id\<close>. The
  form data is the list of its keys and values.
\<close>

definition encode_payload :: "int \<Rightarrow> 'g Channel \<Rightarrow> error + (string \<times> string) list" where
  "encode_payload uid ch =
     (case stream ch of
        None \<Rightarrow> Inl AssertionError
      | Some st \<Rightarrow>
          let payload =
                JArr [JObj [(''event'', JStr ''minute-watched''),
                            (''properties'',
                             JObj [(''channel_id'', JInt (id_chan ch)),
                                   (''broadcast_id'', broadcast_id st),
                                   (''player'', JStr ''site''),
                                   (''user_id'', JInt uid)])]];
              json_event = json_dumps payload
          in bindE (decode_utf8 (b64encode (encode_utf8 json_event)))
               (\<lambda>encoded. Inr [(''data'', encoded)]))"

text \<open>
  \<^verbatim>\<open>_send_watch\<close> (here \<open>send_watch\<close>), run without another signal arriving while it is
  suspended: the channel as it leaves it, the requests made, and the value returned
  (\<^verbatim>\<open>None\<close> when it returns at once, otherwise whether the status was 204) or the exception.
\<close>

definition send_watch ::
  "Twitch \<Rightarrow> 'g Channel \<Rightarrow> 'g Channel \<times> request list \<times> (error + bool option)" where
  "send_watch tw ch =
     (if \<not> online ch then (ch, [], Inr None)
      else
        (case (case spade_url ch of
                 None \<Rightarrow>
                   (case get_spade_url tw ch of
                      (log, Inl e) \<Rightarrow> (ch, log, Inl e)
                    | (log, Inr u) \<Rightarrow> (ch\<lparr>spade_url := Some u\<rparr>, log, Inr u))
               | Some u \<Rightarrow> (ch, [], Inr u)) of
           (ch1, log, Inl e) \<Rightarrow> (ch1, log, Inl e)
         | (ch1, log, Inr u) \<Rightarrow>
             (case encode_payload (user_id tw) ch1 of
                Inl e \<Rightarrow> (ch1, log, Inl e)
              | Inr data \<Rightarrow>
                  (case session_post tw u data of
                     Inl e \<Rightarrow> (ch1, log @ [POST u data], Inl e)
                   | Inr status \<Rightarrow> (ch1, log @ [POST u data], Inr (Some (status = 204)))))))"

text \<open>
  The inverse of \<^verbatim>\<open>b64encode\<close>, as a test of the payload applies it: groups of four
  characters of the alphabet, the last one padded with one or two \<^verbatim>\<open>=\<close>.
\<close>

definition b64val :: "char \<Rightarrow> nat option" where
  "b64val c = (let n = (of_char c :: nat) in
     if 65 \<le> n \<and> n \<le> 90 then Some (n - 65)
     else if 97 \<le> n \<and> n \<le> 122 then Some (n - 71)
     else if 48 \<le> n \<and> n \<le> 57 then Some (n + 4)
     else if n = 43 then Some 62
     else if n = 47 then Some 63
     else None)"

fun b64decode :: "string \<Rightarrow> string option" where
  "b64decode [] = Some []"
| "b64decode (p # q # r # s # rest) =
     (case (b64val p, b64val q) of
        (Some a, Some b) \<Rightarrow>
          if r = CHR ''='' \<and> s = CHR ''='' \<and> rest = [] then Some [char_of (a * 4 + b div 16)]
          else
            (case b64val r of
               None \<Rightarrow> None
             | Some c \<Rightarrow>
                 if s = CHR ''='' \<and> rest = []
                 then Some [char_of (a * 4 + b div 16), char_of ((b mod 16) * 16 + c div 4)]
                 else
                   (case b64val s of
                      None \<Rightarrow> None
                    | Some d \<Rightarrow>
                        (case b64decode rest of
                           None \<Rightarrow> None
                         | Some bs \<Rightarrow>
                             Some (char_of (a * 4 + b div 16) #
                                   char_of ((b mod 16) * 16 + c div 4) #
                                   char_of ((c mod 4) * 64 + d) # bs))))
      | _ \<Rightarrow> None)"
| "b64decode _ = None"

subsection \<open>Reading JSON back\<close>

text \<open>
  The inverse of \<^verbatim>\<open>json.dumps\<close>, as a test of the payload applies it (\<^verbatim>\<open>json.loads\<close>), for
  the values of this model: JSON text with numbers that are integers and strings whose
  characters are code points below 256. Whitespace is allowed between the tokens. An
  object becomes a dictionary: a key that occurs again replaces the value stored for it.
  The recursion is bounded by a counter, which \<open>json_loads\<close> sets from the length of the
  text.
\<close>

definition is_ws :: "char \<Rightarrow> bool" where
  "is_ws c = (c = CHR '' '' \<or> c = CHR 0x09 \<or> c = CHR 0x0A \<or> c = CHR 0x0D)"

definition skip_ws :: "string \<Rightarrow> string" where
  "skip_ws s = dropWhile is_ws s"

definition hex_val :: "char \<Rightarrow> nat option" where
  "hex_val c = (let n = (of_char c :: nat) in
     if 48 \<le> n \<and> n \<le> 57 then Some (n - 48)
     else if 97 \<le> n \<and> n \<le> 102 then Some (n - 87)
     else if 65 \<le> n \<and> n \<le> 70 then Some (n - 55)
     else None)"

text \<open>The characters of a string after its opening quote, up to the closing one.\<close>

fun parse_chars :: "string \<Rightarrow> string \<Rightarrow> (string \<times> string) option" where
  "parse_chars acc [] = None"
| "parse_chars acc [c] = (if c = CHR 0x22 then Some (acc, []) else None)"
| "parse_chars acc (c # d # cs) =
     (if c = CHR 0x22 then Some (acc, d # cs)
      else if c = CHR 0x5C then
        (if d = CHR 0x22 \<or> d = CHR 0x5C \<or> d = CHR ''/'' then parse_chars (acc @ [d]) cs
         else if d = CHR ''b'' then parse_chars (acc @ [CHR 0x08]) cs
         else if d = CHR ''f'' then parse_chars (acc @ [CHR 0x0C]) cs
         else if d = CHR ''n'' then parse_chars (acc @ [CHR 0x0A]) cs
         else if d = CHR ''r'' then parse_chars (acc @ [CHR 0x0D]) cs
         else if d = CHR ''t'' then parse_chars (acc @ [CHR 0x09]) cs
         else if d = CHR ''u'' then
           (case cs of
              h1 # h2 # h3 # h4 # rest \<Rightarrow>
                (case (hex_val h1, hex_val h2, hex_val h3, hex_val h4) of
                   (Some a, Some b, Some x, Some y) \<Rightarrow>
                     if a = 0 \<and> b = 0 then parse_chars (acc @ [char_of (x * 16 + y)]) rest
                     else None
                 | _ \<Rightarrow> None)
            | _ \<Rightarrow> None)
         else None)
      else if (of_char c :: nat) < 32 then None
      else parse_chars (acc @ [c]) (d # cs))"

definition digits_to_nat :: "string \<Rightarrow> nat" where
  "digits_to_nat ds = foldl (\<lambda>a c. a * 10 + digit_val c) 0 ds"

text \<open>
  A number: an optional minus sign, then \<^verbatim>\<open>0\<close> or digits not starting with \<^verbatim>\<open>0\<close>. One
  with a fraction or an exponent is a float and not read.
\<close>

definition parse_number :: "string \<Rightarrow> (json \<times> string) option" where
  "parse_number s =
     (let neg = (s \<noteq> [] \<and> hd s = CHR ''-'');
          t = (if neg then tl s else s);
          ds = takeWhile is_digit t;
          r = dropWhile is_digit t
      in if ds = [] \<or> (length ds > 1 \<and> hd ds = CHR ''0'') \<or>
            (r \<noteq> [] \<and> (hd r = CHR ''.'' \<or> hd r = CHR ''e'' \<or> hd r = CHR ''E''))
         then None
         else Some (JInt (if neg then - int (digits_to_nat ds) else int (digits_to_nat ds)), r))"

text \<open>\<^verbatim>\<open>d[k] = v\<close> on a dictionary.\<close>

fun dict_set :: "(string \<times> json) list \<Rightarrow> string \<Rightarrow> json \<Rightarrow> (string \<times> json) list" where
  "dict_set [] k v = [(k, v)]"
| "dict_set ((k', v') # kvs) k v =
     (if k' = k then (k, v) # kvs else (k', v') # dict_set kvs k v)"

definition dict_of :: "(string \<times> json) list \<Rightarrow> (string \<times> json) list" where
  "dict_of kvs = foldl (\<lambda>d kv. dict_set d (fst kv) (snd kv)) [] kvs"

fun parse_value :: "nat \<Rightarrow> string \<Rightarrow> (json \<times> string) option"
  and parse_elements :: "nat \<Rightarrow> string \<Rightarrow> (json list \<times> string) option"
  and parse_members :: "nat \<Rightarrow> string \<Rightarrow> ((string \<times> json) list \<times> string) option" where
  "parse_value 0 s = None"
| "parse_value (Suc n) s =
     (case skip_ws s of
        [] \<Rightarrow> None
      | c # cs \<Rightarrow>
          if c = CHR ''['' then
            (case skip_ws cs of
               [] \<Rightarrow> None
             | d # ds \<Rightarrow>
                 if d = CHR '']'' then Some (JArr [], ds)
                 else (case parse_elements n cs of
                         None \<Rightarrow> None
                       | Some (vs, r) \<Rightarrow> Some (JArr vs, r)))
          else if c = CHR ''{'' then
            (case skip_ws cs of
               [] \<Rightarrow> None
             | d # ds \<Rightarrow>
                 if d = CHR ''}'' then Some (JObj [], ds)
                 else (case parse_members n cs of
                         None \<Rightarrow> None
                       | Some (kvs, r) \<Rightarrow> Some (JObj (dict_of kvs), r)))
          else if c = CHR 0x22 then
            (case parse_chars [] cs of None \<Rightarrow> None | Some (str, r) \<Rightarrow> Some (JStr str, r))
          else if take 4 (c # cs) = ''null'' then Some (JNull, drop 4 (c # cs))
          else if take 4 (c # cs) = ''true'' then Some (JBool True, drop 4 (c # cs))
          else if take 5 (c # cs) = ''false'' then Some (JBool False, drop 5 (c # cs))
          else parse_number (c # cs))"
| "parse_elements 0 s = None"
| "parse_elements (Suc n) s =
     (case parse_value n s of
        None \<Rightarrow> None
      | Some (v, r) \<Rightarrow>
          (case skip_ws r of
             [] \<Rightarrow> None
           | c # cs \<Rightarrow>
               if c = CHR '','' then
                 (case parse_elements n cs of
                    None \<Rightarrow> None
                  | Some (vs, r') \<Rightarrow> Some (v # vs, r'))
               else if c = CHR '']'' then Some ([v], cs)
               else None))"
| "parse_members 0 s = None"
| "parse_members (Suc n) s =
     (case skip_ws s of
        [] \<Rightarrow> None
      | q # qs \<Rightarrow>
          if q = CHR 0x22 then
            (case parse_chars [] qs of
               None \<Rightarrow> None
             | Some (k, r) \<Rightarrow>
                 (case skip_ws r of
                    [] \<Rightarrow> None
                  | c # cs \<Rightarrow>
                      if c = CHR '':'' then
                        (case parse_value n cs of
                           None \<Rightarrow> None
                         | Some (v, r') \<Rightarrow>
                             (case skip_ws r' of
                                [] \<Rightarrow> None
                              | e # es \<Rightarrow>
                                  if e = CHR '','' then
                                    (case parse_members n es of
                                       None \<Rightarrow> None
                                     | Some (kvs, r'') \<Rightarrow> Some ((k, v) # kvs, r''))
                                  else if e = CHR ''}'' then Some ([(k, v)], es)
                                  else None))
                      else None))
          else None)"

definition json_loads :: "string \<Rightarrow> json option" where
  "json_loads s =
     (case parse_value (2 * length s + 2) s of
        None \<Rightarrow> None
      | Some (v, r) \<Rightarrow> if skip_ws r = [] then Some v else None)"

text \<open>
  A Python dictionary holds each key once. \<open>dict_norm v\<close> is \<open>v\<close> with every dictionary
  inside it built by successive assignments (\<open>dict_of\<close>); it is \<open>v\<close> itself when no
  dictionary inside \<open>v\<close> lists a key twice (\<open>distinct_keys\<close>), as is the case for every
  value a program can hold.
\<close>

fun dict_norm :: "json \<Rightarrow> json"
  and dict_norm_list :: "json list \<Rightarrow> json list"
  and dict_norm_items :: "(string \<times> json) list \<Rightarrow> (string \<times> json) list" where
  "dict_norm JNull = JNull"
| "dict_norm (JBool b) = JBool b"
| "dict_norm (JInt i) = JInt i"
| "dict_norm (JStr s) = JStr s"
| "dict_norm (JArr xs) = JArr (dict_norm_list xs)"
| "dict_norm (JObj kvs) = JObj (dict_of (dict_norm_items kvs))"
| "dict_norm_list [] = []"
| "dict_norm_list (x # xs) = dict_norm x # dict_norm_list xs"
| "dict_norm_items [] = []"
| "dict_norm_items ((k, v) # kvs) = (k, dict_norm v) # dict_norm_items kvs"

fun distinct_keys :: "json \<Rightarrow> bool"
  and distinct_keys_list :: "json list \<Rightarrow> bool"
  and distinct_keys_items :: "(string \<times> json) list \<Rightarrow> bool" where
  "distinct_keys JNull = True"
| "distinct_keys (JBool b) = True"
| "distinct_keys (JInt i) = True"
| "distinct_keys (JStr s) = True"
| "distinct_keys (JArr xs) = distinct_keys_list xs"
| "distinct_keys (JObj kvs) = (distinct (map fst kvs) \<and> distinct_keys_items kvs)"
| "distinct_keys_list [] = True"
| "distinct_keys_list (x # xs) = (distinct_keys x \<and> distinct_keys_list xs)"
| "distinct_keys_items [] = True"
| "distinct_keys_items ((k, v) # kvs) = (distinct_keys v \<and> distinct_keys_items kvs)"

text \<open>A value of the counter that is enough to read the text of a value back.\<close>

fun need :: "json \<Rightarrow> nat"
  and need_list :: "json list \<Rightarrow> nat"
  and need_items :: "(string \<times> json) list \<Rightarrow> nat" where
  "need JNull = 1"
| "need (JBool b) = 1"
| "need (JInt i) = 1"
| "need (JStr s) = 1"
| "need (JArr xs) = Suc (need_list xs)"
| "need (JObj kvs) = Suc (need_items kvs)"
| "need_list [] = 0"
| "need_list (x # xs) = Suc (max (need x) (need_list xs))"
| "need_items [] = 0"
| "need_items ((k, v) # kvs) = Suc (max (need v) (need_items kvs))"

text \<open>
  Whitespace that is not part of a string: \<open>bare_ws Outside s\<close> says that some whitespace
  character of the JSON text \<open>s\<close> stands outside its string literals.
\<close>

datatype scan = Outside | Inside | Escaped

fun bare_ws :: "scan \<Rightarrow> string \<Rightarrow> bool" where
  "bare_ws st [] = False"
| "bare_ws Outside (c # cs) =
     (if c = CHR 0x22 then bare_ws Inside cs else is_ws c \<or> bare_ws Outside cs)"
| "bare_ws Inside (c # cs) =
     (if c = CHR 0x22 then bare_ws Outside cs
      else if c = CHR 0x5C then bare_ws Escaped cs
      else bare_ws Inside cs)"
| "bare_ws Escaped (c # cs) = bare_ws Inside cs"

text \<open>
  What the specification expects of the payload for channel id \<open>c\<close>, a stream whose
  \<^verbatim>\<open>broadcast_id\<close> holds the value \<open>b\<close>, and user id \<open>u\<close>: the value, and its text with
  nothing between the items.
\<close>

definition expected_payload :: "int \<Rightarrow> json \<Rightarrow> int \<Rightarrow> json" where
  "expected_payload c b u =
     JArr [JObj [(''event'', JStr ''minute-watched''),
                 (''properties'',
                  JObj [(''channel_id'', JInt c), (''broadcast_id'', b),
                        (''player'', JStr ''site''), (''user_id'', JInt u)])]]"

definition expected_text :: "int \<Rightarrow> json \<Rightarrow> int \<Rightarrow> string" where
  "expected_text c b u =
     ''[{\"event\":\"minute-watched\",\"properties\":{\"channel_id\":'' @ show_int c @
     '',\"broadcast_id\":'' @ json_dumps b @ '',\"player\":\"site\",\"user_id\":'' @ show_int u @
     ''}}]''"

definition ascii :: "string \<Rightarrow> bool" where
  "ascii s = list_all (\<lambda>c. (of_char c :: nat) < 128) s"

section \<open>Sample data\<close>

text \<open>
  A user record of a \<^verbatim>\<open>GetStreamInfo\<close> response, the response around it, and an entry
  of a directory listing, in the shapes the constructors read.
\<close>

definition example_user :: json where
  "example_user =
     JObj [(''id'', JStr ''123''),
           (''stream'', JObj [(''id'', JStr ''456''), (''viewersCount'', JInt 10),
                              (''tags'', JArr [JObj [(''id'', JStr ''other'')],
                                               JObj [(''id'', JStr ''drops'')]])]),
           (''broadcastSettings'', JObj [(''game'', JNull), (''title'', JStr ''hello'')])]"

definition example_response :: json where
  "example_response = JObj [(''data'', JObj [(''user'', example_user)])]"

text \<open>A response for a user who is not live, and one for a user that does not exist.\<close>

definition example_offline_response :: json where
  "example_offline_response =
     JObj [(''data'', JObj [(''user'', JObj [(''id'', JStr ''123''), (''stream'', JNull)])])]"

definition null_user_response :: json where
  "null_user_response = JObj [(''data'', JObj [(''user'', JNull)])]"

definition example_stream :: "json Stream" where
  "example_stream =
     \<lparr>broadcast_id = JInt 456, viewer_count = JInt 10, drops_enabled = True, game = None,
      title = JStr ''hello'', timestamp = 7\<rparr>"

definition example_entry :: json where
  "example_entry =
     JObj [(''id'', JStr ''456''), (''viewersCount'', JInt 10),
           (''tags'', JArr [JObj [(''id'', JStr ''other'')]]),
           (''game'', JObj [(''id'', JStr ''33''), (''name'', JStr ''Chess'')]),
           (''title'', JStr ''hello''),
           (''broadcaster'', JObj [(''id'', JStr ''123''), (''displayName'', JStr ''someone'')])]"

definition example_entry_stream :: "json Stream" where
  "example_entry_stream =
     \<lparr>broadcast_id = JStr ''456'', viewer_count = JInt 10, drops_enabled = False,
      game = Some (JObj [(''id'', JStr ''33''), (''name'', JStr ''Chess'')]),
      title = JStr ''hello'', timestamp = 7\<rparr>"

text \<open>A stream whose id is a string with a space and quotes in it.\<close>

definition example_quoted_stream :: "json Stream" where
  "example_quoted_stream =
     \<lparr>broadcast_id = JStr ''say \"hi\"'', viewer_count = JInt 10, drops_enabled = False,
      game = None, title = JStr ''hello'', timestamp = 7\<rparr>"

definition example_channel :: "json Channel" where
  "example_channel = Channel_init ''https://www.twitch.tv'' ''someone''"

text \<open>
  A client whose session serves a channel page naming a settings script, and the script,
  and answers a \<^verbatim>\<open>POST\<close> with 204; a page without the script tag; a script without the
  assignment.
\<close>

definition example_settings_url :: string where
  "example_settings_url =
     ''https://static.twitchcdn.net/config/settings.0123456789abcdef0123456789abcdef.js''"

definition example_page :: string where
  "example_page = ''<script src=\"'' @ example_settings_url @ ''\"></script>''"

definition example_spade :: string where
  "example_spade = ''https://video-edge-1a2b3c.example.net/v1/segment/abc.ts''"

definition example_script :: string where
  "example_script = ''{\"spade_url\":\"'' @ example_spade @ ''\",\"x\":1}''"

definition example_twitch :: "string \<Rightarrow> string \<Rightarrow> Twitch" where
  "example_twitch page script =
     \<lparr>user_id = 789,
      session_get = (\<lambda>u. if u = ''https://www.twitch.tv/someone'' then Inr page
                        else if u = example_settings_url then Inr script
                        else Inl (RequestError ''not found'')),
      session_post = (\<lambda>u d. Inr 204)\<rparr>"

section \<open>Properties\<close>

subsection \<open>Exceptions in sequence\<close>

lemma bindE_Inr [simp]: "bindE (Inr x) f = f x"
  by (simp add: bindE_def)

lemma bindE_Inl [simp]: "bindE (Inl e) f = Inl e"
  by (simp add: bindE_def)

lemma bindE_InrE:
  assumes "bindE m f = Inr y"
  obtains x where "m = Inr x" and "f x = Inr y"
  using assms by (cases m) (simp_all add: bindE_def)

subsection \<open>Stream construction\<close>

lemma any_drops_tag_iff:
  "any_drops_tag TAG ts = Inr b \<Longrightarrow> b = (\<exists>t \<in> set ts. getitem t ''id'' = Inr (JStr TAG))"
proof (induction ts)
  case Nil
  then show ?case by simp
next
  case (Cons t ts)
  then show ?case
    by (cases "getitem t ''id''") (auto split: if_splits)
qed

lemma tags_enabled_iff:
  "tags_enabled TAG tags = Inr b \<Longrightarrow>
     \<exists>ts. py_iter tags = Inr ts \<and> b = (\<exists>t \<in> set ts. getitem t ''id'' = Inr (JStr TAG))"
  unfolding tags_enabled_def by (erule bindE_InrE) (auto dest: any_drops_tag_iff)

lemma Stream_init_tags:
  assumes "Stream_init TAG Game now data = Inr st"
  shows "\<exists>s tags. getitem data ''stream'' = Inr s \<and> getitem s ''tags'' = Inr tags \<and>
           tags_enabled TAG tags = Inr (drops_enabled st)"
  using assms unfolding Stream_init_def
  by (elim bindE_InrE) auto

lemma Stream_init_broadcast_id:
  assumes "Stream_init TAG Game now data = Inr st"
  shows "\<exists>s sid n. getitem data ''stream'' = Inr s \<and> getitem s ''id'' = Inr sid \<and>
           py_int sid = Inr n \<and> broadcast_id st = JInt n"
  using assms unfolding Stream_init_def
  by (elim bindE_InrE) auto

lemma Stream_from_directory_tags:
  assumes "Stream_from_directory TAG Game now data = Inr st"
  shows "\<exists>tags. getitem data ''tags'' = Inr tags \<and> tags_enabled TAG tags = Inr (drops_enabled st)"
  using assms unfolding Stream_from_directory_def
  by (elim bindE_InrE) auto

lemma Stream_from_directory_broadcast_id:
  assumes "Stream_from_directory TAG Game now data = Inr st"
  shows "getitem data ''id'' = Inr (broadcast_id st)"
  using assms unfolding Stream_from_directory_def
  by (elim bindE_InrE) auto

lemma int_of_str_456: "int_of_str ''456'' = Inr 456"
  by code_simp

lemma int_of_str_123: "int_of_str ''123'' = Inr 123"
  by code_simp

lemma Stream_init_example:
  "Stream_init ''drops'' Inr 7 example_user = Inr example_stream"
  by (simp add: Stream_init_def example_user_def example_stream_def tags_enabled_def
      int_of_str_456)

lemma Stream_from_directory_example:
  "Stream_from_directory ''drops'' Inr 7 example_entry = Inr example_entry_stream"
  by (simp add: Stream_from_directory_def example_entry_def example_entry_stream_def
      tags_enabled_def)

text \<open>
  C5. A stream built from either shape has \<open>drops_enabled\<close> true exactly when some element
  of the tag collection it was built from has the reserved tag id as its \<^verbatim>\<open>id\<close>. The
  collection is \<^verbatim>\<open>data["stream"]["tags"]\<close> for a polled result and \<^verbatim>\<open>data["tags"]\<close> for
  a directory entry.
\<close>

theorem drops_enabled_iff_tag_present:
  "(Stream_init TAG Game now data = Inr st \<longrightarrow>
      (\<exists>s tags ts. getitem data ''stream'' = Inr s \<and> getitem s ''tags'' = Inr tags \<and>
         py_iter tags = Inr ts \<and>
         drops_enabled st = (\<exists>t \<in> set ts. getitem t ''id'' = Inr (JStr TAG)))) \<and>
   (Stream_from_directory TAG Game now data = Inr st \<longrightarrow>
      (\<exists>tags ts. getitem data ''tags'' = Inr tags \<and> py_iter tags = Inr ts \<and>
         drops_enabled st = (\<exists>t \<in> set ts. getitem t ''id'' = Inr (JStr TAG))))"
proof (intro conjI impI)
  assume "Stream_init TAG Game now data = Inr st"
  then obtain s tags where "getitem data ''stream'' = Inr s" "getitem s ''tags'' = Inr tags"
    and de: "tags_enabled TAG tags = Inr (drops_enabled st)"
    using Stream_init_tags by blast
  with tags_enabled_iff [OF de]
  show "\<exists>s tags ts. getitem data ''stream'' = Inr s \<and> getitem s ''tags'' = Inr tags \<and>
         py_iter tags = Inr ts \<and>
         drops_enabled st = (\<exists>t \<in> set ts. getitem t ''id'' = Inr (JStr TAG))"
    by blast
next
  assume "Stream_from_directory TAG Game now data = Inr st"
  then obtain tags where "getitem data ''tags'' = Inr tags"
    and de: "tags_enabled TAG tags = Inr (drops_enabled st)"
    using Stream_from_directory_tags by blast
  with tags_enabled_iff [OF de]
  show "\<exists>tags ts. getitem data ''tags'' = Inr tags \<and> py_iter tags = Inr ts \<and>
         drops_enabled st = (\<exists>t \<in> set ts. getitem t ''id'' = Inr (JStr TAG))"
    by blast
qed

theorem drops_enabled_iff_tag_present_witness:
  "Stream_init ''drops'' Inr 7 example_user = Inr example_stream \<and>
   drops_enabled example_stream \<and>
   (\<exists>s tags ts. getitem example_user ''stream'' = Inr s \<and> getitem s ''tags'' = Inr tags \<and>
      py_iter tags = Inr ts \<and> (\<exists>t \<in> set ts. getitem t ''id'' = Inr (JStr ''drops''))) \<and>
   Stream_from_directory ''drops'' Inr 7 example_entry = Inr example_entry_stream \<and>
   \<not> drops_enabled example_entry_stream \<and>
   (\<exists>tags ts. getitem example_entry ''tags'' = Inr tags \<and> py_iter tags = Inr ts \<and>
      \<not> (\<exists>t \<in> set ts. getitem t ''id'' = Inr (JStr ''drops'')))"
proof -
  have a: "drops_enabled example_stream" "\<not> drops_enabled example_entry_stream"
    by (simp_all add: example_stream_def example_entry_stream_def)
  from drops_enabled_iff_tag_present [of "''drops''" Inr 7 example_user example_stream,
      THEN conjunct1, rule_format, OF Stream_init_example]
    drops_enabled_iff_tag_present [of "''drops''" Inr 7 example_entry example_entry_stream,
      THEN conjunct2, rule_format, OF Stream_from_directory_example]
  show ?thesis
    using a Stream_init_example Stream_from_directory_example by simp
qed

text \<open>
  C6. A directory entry whose \<^verbatim>\<open>id\<close> is the string \<^verbatim>\<open>"456"\<close>: \<^verbatim>\<open>Stream.from_directory\<close>
  stores the field as it is, so \<open>broadcast_id\<close> is that string and not the integer 456,
  whereas \<^verbatim>\<open>Stream.__init__\<close> on the same id stores the integer.
\<close>

theorem from_directory_keeps_string_id:
  "Stream_from_directory ''drops'' Inr 7 example_entry = Inr example_entry_stream \<and>
   getitem example_entry ''id'' = Inr (JStr ''456'') \<and>
   broadcast_id example_entry_stream = JStr ''456'' \<and>
   broadcast_id example_entry_stream \<noteq> JInt 456 \<and>
   Stream_init ''drops'' Inr 7 example_user = Inr example_stream \<and>
   broadcast_id example_stream = JInt 456"
  using Stream_from_directory_example Stream_init_example
  by (simp add: example_entry_def example_entry_stream_def example_stream_def)

subsection \<open>Reconciliation\<close>

lemma get_stream_pending:
  "pending_stream_up (fst (get_stream TAG Game now gql ch)) = pending_stream_up ch"
  by (simp add: get_stream_def Let_def split: sum.splits)

lemma get_stream_truthy_Inr:
  assumes g: "get_stream TAG Game now (Inr response) ch = (ch', Inr res)"
    and t: "truthy response"
  shows "\<exists>d user uid i s. getitem response ''data'' = Inr d \<and> getitem d ''user'' = Inr user \<and>
           getitem user ''id'' = Inr uid \<and> py_int uid = Inr i \<and>
           getitem user ''stream'' = Inr s \<and>
           (if truthy s
            then \<exists>st. Stream_init TAG Game now user = Inr st \<and>
                   ch' = ch\<lparr>id_chan := i, stream := Some st\<rparr> \<and> res = Some st
            else ch' = ch\<lparr>id_chan := i, stream := None\<rparr> \<and> res = None)"
proof -
  from g t obtain d where d: "getitem response ''data'' = Inr d"
    by (cases "getitem response ''data''") (simp_all add: get_stream_def)
  from g t d obtain user where u: "getitem d ''user'' = Inr user"
    by (cases "getitem d ''user''") (simp_all add: get_stream_def)
  from g t d u obtain uid where uid: "getitem user ''id'' = Inr uid"
    by (cases "getitem user ''id''") (simp_all add: get_stream_def)
  from g t d u uid obtain i where i: "py_int uid = Inr i"
    by (cases "py_int uid") (simp_all add: get_stream_def)
  from g t d u uid i obtain s where s: "getitem user ''stream'' = Inr s"
    by (cases "getitem user ''stream''") (simp_all add: get_stream_def)
  show ?thesis
  proof (cases "truthy s")
    case False
    with g t d u uid i s have "ch' = ch\<lparr>id_chan := i, stream := None\<rparr> \<and> res = None"
      by (auto simp: get_stream_def)
    with d u uid i s False show ?thesis by simp
  next
    case True
    with g t d u uid i s obtain st where st: "Stream_init TAG Game now user = Inr st"
      by (cases "Stream_init TAG Game now user") (simp_all add: get_stream_def)
    with g t d u uid i s True have "ch' = ch\<lparr>id_chan := i, stream := Some st\<rparr> \<and> res = Some st"
      by (auto simp: get_stream_def)
    with d u uid i s True st show ?thesis by simp
  qed
qed

lemma get_stream_example:
  "get_stream ''drops'' Inr 7 (Inr example_response) ch =
     (ch\<lparr>id_chan := 123, stream := Some example_stream\<rparr>, Inr (Some example_stream))"
proof -
  have "getitem example_user ''id'' = Inr (JStr ''123'')"
    "truthy example_response"
    "\<exists>s. getitem example_user ''stream'' = Inr s \<and> truthy s"
    by (simp_all add: example_user_def example_response_def)
  then show ?thesis
    by (auto simp add: get_stream_def example_response_def Stream_init_example int_of_str_123)
qed

lemma get_stream_offline_example:
  "get_stream ''drops'' Inr 9 (Inr example_offline_response) ch =
     (ch\<lparr>id_chan := 123, stream := None\<rparr>, Inr None)"
  by (simp add: get_stream_def example_offline_response_def int_of_str_123)

text \<open>
  C3, as the code has it. A reconciliation that returns, on a response that is not empty:
  the channel id is the integer read from the \<^verbatim>\<open>id\<close> of the user record; the value
  returned is the channel's stream; when the \<^verbatim>\<open>stream\<close> of the record is a live stream the
  channel is online, with the stream constructed from the record, and when it is empty the
  stream is \<^verbatim>\<open>None\<close> and the channel is not online.
\<close>

theorem get_stream_reports:
  assumes "get_stream TAG Game now (Inr response) ch = (ch', Inr res)" and "truthy response"
  shows "\<exists>d user uid s. getitem response ''data'' = Inr d \<and> getitem d ''user'' = Inr user \<and>
           getitem user ''id'' = Inr uid \<and> getitem user ''stream'' = Inr s \<and>
           py_int uid = Inr (id_chan ch') \<and> res = stream ch' \<and>
           (if truthy s
            then online ch' \<and> (\<exists>st. Stream_init TAG Game now user = Inr st \<and> stream ch' = Some st)
            else stream ch' = None \<and> \<not> online ch')"
proof -
  from get_stream_truthy_Inr [OF assms]
  obtain d user uid i s where a: "getitem response ''data'' = Inr d" "getitem d ''user'' = Inr user"
    "getitem user ''id'' = Inr uid" "py_int uid = Inr i" "getitem user ''stream'' = Inr s"
    and b: "if truthy s
            then \<exists>st. Stream_init TAG Game now user = Inr st \<and>
                   ch' = ch\<lparr>id_chan := i, stream := Some st\<rparr> \<and> res = Some st
            else ch' = ch\<lparr>id_chan := i, stream := None\<rparr> \<and> res = None"
    by blast
  from b have "py_int uid = Inr (id_chan ch') \<and> res = stream ch' \<and>
           (if truthy s
            then online ch' \<and> (\<exists>st. Stream_init TAG Game now user = Inr st \<and> stream ch' = Some st)
            else stream ch' = None \<and> \<not> online ch')"
    using a(4) by (cases "truthy s") (auto simp: online_def)
  with a show ?thesis by blast
qed

theorem get_stream_reports_witness:
  "get_stream ''drops'' Inr 7 (Inr example_response) example_channel =
     (example_channel\<lparr>id_chan := 123, stream := Some example_stream\<rparr>, Inr (Some example_stream)) \<and>
   truthy example_response \<and>
   (\<exists>d user uid s. getitem example_response ''data'' = Inr d \<and> getitem d ''user'' = Inr user \<and>
      getitem user ''id'' = Inr uid \<and> getitem user ''stream'' = Inr s \<and>
      py_int uid = Inr 123 \<and> truthy s \<and>
      online (example_channel\<lparr>id_chan := 123, stream := Some example_stream\<rparr>)) \<and>
   get_stream ''drops'' Inr 9 (Inr example_offline_response)
       (example_channel\<lparr>id_chan := 123, stream := Some example_stream\<rparr>) =
     (example_channel\<lparr>id_chan := 123, stream := None\<rparr>, Inr None) \<and>
   truthy example_offline_response \<and>
   (\<exists>d user uid s. getitem example_offline_response ''data'' = Inr d \<and>
      getitem d ''user'' = Inr user \<and> getitem user ''id'' = Inr uid \<and>
      getitem user ''stream'' = Inr s \<and> py_int uid = Inr 123 \<and> \<not> truthy s \<and>
      \<not> online (example_channel\<lparr>id_chan := 123, stream := None\<rparr>))"
proof -
  let ?on = "example_channel\<lparr>id_chan := 123, stream := Some example_stream\<rparr>"
  let ?off = "example_channel\<lparr>id_chan := 123, stream := None\<rparr>"
  have t: "truthy example_response"
    by (simp add: example_response_def)
  have t': "truthy example_offline_response"
    by (simp add: example_offline_response_def)
  have g': "get_stream ''drops'' Inr 9 (Inr example_offline_response) ?on = (?off, Inr None)"
    using get_stream_offline_example [of ?on] by simp
  from get_stream_reports [OF get_stream_example [of example_channel] t]
  obtain d user uid s where a: "getitem example_response ''data'' = Inr d"
    "getitem d ''user'' = Inr user" "getitem user ''id'' = Inr uid"
    "getitem user ''stream'' = Inr s" "py_int uid = Inr 123"
    and b: "if truthy s then online ?on else stream ?on = None"
    by (auto split: if_splits)
  from b have ts: "truthy s" by (cases "truthy s") simp_all
  with b have on: "online ?on" by simp
  from get_stream_reports [OF g' t']
  obtain d' user' uid' s' where a': "getitem example_offline_response ''data'' = Inr d'"
    "getitem d' ''user'' = Inr user'" "getitem user' ''id'' = Inr uid'"
    "getitem user' ''stream'' = Inr s'" "py_int uid' = Inr 123"
    and b': "if truthy s' then online ?off else stream ?off = None \<and> \<not> online ?off"
    by (auto split: if_splits)
  have "\<not> online ?off" by (simp add: online_def)
  with b' have ts': "\<not> truthy s'" by (cases "truthy s'") simp_all
  from b' ts' have off: "\<not> online ?off" by simp
  have 1: "\<exists>d user uid s. getitem example_response ''data'' = Inr d \<and>
      getitem d ''user'' = Inr user \<and> getitem user ''id'' = Inr uid \<and>
      getitem user ''stream'' = Inr s \<and> py_int uid = Inr 123 \<and> truthy s \<and> online ?on"
    using a ts on by blast
  have 2: "\<exists>d user uid s. getitem example_offline_response ''data'' = Inr d \<and>
      getitem d ''user'' = Inr user \<and> getitem user ''id'' = Inr uid \<and>
      getitem user ''stream'' = Inr s \<and> py_int uid = Inr 123 \<and> \<not> truthy s \<and> \<not> online ?off"
    using a' ts' off by blast
  from get_stream_example [of example_channel] t 1 g' t' 2 show ?thesis
    by (intro conjI)
qed

text \<open>
  C3, as stated, fails where the response reports no live stream by a user record that is
  \<^verbatim>\<open>null\<close>: \<^verbatim>\<open>stream_data["id"]\<close> raises, the assignment of \<^verbatim>\<open>None\<close> is not reached, and
  the channel is online as before.
\<close>

theorem get_stream_null_user_keeps_stream:
  "truthy null_user_response \<and>
   get_stream ''drops'' Inr 9 (Inr null_user_response)
       (example_channel\<lparr>id_chan := 123, stream := Some example_stream\<rparr>) =
     (example_channel\<lparr>id_chan := 123, stream := Some example_stream\<rparr>, Inl TypeError) \<and>
   stream (example_channel\<lparr>id_chan := 123, stream := Some example_stream\<rparr>) \<noteq> None \<and>
   online (example_channel\<lparr>id_chan := 123, stream := Some example_stream\<rparr>)"
  by (simp add: get_stream_def null_user_response_def online_def)

text \<open>
  C10. On an empty (falsy) response a reconciliation changes nothing of the channel and
  returns the stream the channel already had.
\<close>

theorem get_stream_empty_response:
  "\<not> truthy response \<Longrightarrow> get_stream TAG Game now (Inr response) ch = (ch, Inr (stream ch))"
  by (simp add: get_stream_def)

theorem get_stream_empty_response_witness:
  "\<not> truthy (JObj []) \<and>
   get_stream ''drops'' Inr 9 (Inr (JObj []))
       (example_channel\<lparr>id_chan := 123, stream := Some example_stream\<rparr>) =
     (example_channel\<lparr>id_chan := 123, stream := Some example_stream\<rparr>, Inr (Some example_stream))"
  using get_stream_empty_response [of "JObj []" "''drops''" Inr 9
      "example_channel\<lparr>id_chan := 123, stream := Some example_stream\<rparr>"]
  by simp

subsection \<open>The delayed confirmation\<close>

lemma online_delay_Inr:
  "snd (get_stream TAG Game now gql ch) = Inr r \<Longrightarrow>
     online_delay TAG Game now gql ch =
       ((fst (get_stream TAG Game now gql ch))\<lparr>pending_stream_up := None\<rparr>, Inr ())"
  by (cases "get_stream TAG Game now gql ch") (simp add: online_delay_def)

lemma online_delay_Inl:
  "snd (get_stream TAG Game now gql ch) = Inl e \<Longrightarrow>
     online_delay TAG Game now gql ch = (fst (get_stream TAG Game now gql ch), Inl e)"
  by (cases "get_stream TAG Game now gql ch") (simp add: online_delay_def)

lemma online_delay_pending:
  "pending_stream_up (fst (online_delay TAG Game now gql ch)) = None \<or>
   pending_stream_up (fst (online_delay TAG Game now gql ch)) = pending_stream_up ch"
proof (cases "snd (get_stream TAG Game now gql ch)")
  case (Inl e)
  then show ?thesis by (simp add: online_delay_Inl get_stream_pending)
next
  case (Inr r)
  then show ?thesis by (simp add: online_delay_Inr)
qed

lemma get_stream_request_error:
  "get_stream TAG Game now (Inl e) ch = (ch, Inl e)"
  by (simp add: get_stream_def)

text \<open>
  C4, as the code has it. When the reconciliation inside the confirmation returns, the
  confirmation clears the pending-task reference and returns. When the reconciliation
  raises, the confirmation ends with the same exception and the reference is what it was.
\<close>

theorem online_delay_clears_pending_on_return:
  "(snd (get_stream TAG Game now gql ch) = Inr r \<longrightarrow>
      online_delay TAG Game now gql ch =
        ((fst (get_stream TAG Game now gql ch))\<lparr>pending_stream_up := None\<rparr>, Inr ()) \<and>
      \<not> pending_online (fst (online_delay TAG Game now gql ch))) \<and>
   (snd (get_stream TAG Game now gql ch) = Inl e \<longrightarrow>
      online_delay TAG Game now gql ch = (fst (get_stream TAG Game now gql ch), Inl e) \<and>
      pending_stream_up (fst (online_delay TAG Game now gql ch)) = pending_stream_up ch)"
  by (simp add: online_delay_Inr online_delay_Inl pending_online_def get_stream_pending)

theorem online_delay_clears_pending_on_return_witness:
  "snd (get_stream ''drops'' Inr 7 (Inr example_response)
          (example_channel\<lparr>pending_stream_up := Some 0\<rparr>)) = Inr (Some example_stream) \<and>
   \<not> pending_online (fst (online_delay ''drops'' Inr 7 (Inr example_response)
          (example_channel\<lparr>pending_stream_up := Some 0\<rparr>))) \<and>
   snd (get_stream ''drops'' Inr 7 (Inl (RequestError ''timeout''))
          (example_channel\<lparr>pending_stream_up := Some 0\<rparr>)) = Inl (RequestError ''timeout'') \<and>
   pending_stream_up (fst (online_delay ''drops'' Inr 7 (Inl (RequestError ''timeout''))
          (example_channel\<lparr>pending_stream_up := Some 0\<rparr>))) = Some 0"
proof -
  have a: "snd (get_stream ''drops'' Inr 7 (Inr example_response)
          (example_channel\<lparr>pending_stream_up := Some 0\<rparr>)) = Inr (Some example_stream)"
    by (simp add: get_stream_example)
  have b: "snd (get_stream ''drops'' Inr 7 (Inl (RequestError ''timeout''))
          (example_channel\<lparr>pending_stream_up := Some 0\<rparr>)) = Inl (RequestError ''timeout'')"
    by (simp add: get_stream_request_error)
  from online_delay_clears_pending_on_return [of "''drops''" Inr 7 "Inr example_response"
      "example_channel\<lparr>pending_stream_up := Some 0\<rparr>" "Some example_stream",
      THEN conjunct1, rule_format, OF a]
    online_delay_clears_pending_on_return [of "''drops''" Inr 7 "Inl (RequestError ''timeout'')"
      "example_channel\<lparr>pending_stream_up := Some 0\<rparr>" _ "RequestError ''timeout''",
      THEN conjunct2, rule_format, OF b]
  show ?thesis using a b by (simp add: pending_online_def get_stream_request_error)
qed

text \<open>
  C4, as stated, fails: the request of the confirmation's reconciliation raises, the task has
  finished (with that exception), and the channel still counts as pending online.
\<close>

theorem online_delay_error_keeps_pending:
  "tasks (run ''drops'' Inr (fresh example_channel)
            [SetOnline, SleepDone 0, QueryDone 0 (Inl (RequestError ''timeout'')) 7])
     = [Failed (RequestError ''timeout'')] \<and>
   pending_online (chan (run ''drops'' Inr (fresh example_channel)
            [SetOnline, SleepDone 0, QueryDone 0 (Inl (RequestError ''timeout'')) 7]))"
  by (simp add: run_def fresh_def example_channel_def Channel_init_def set_online_def
      sleep_done_def query_done_def online_delay_def get_stream_def online_def
      pending_online_def)

subsection \<open>The signals and the table of tasks\<close>

lemma cancel_not_live [simp]: "\<not> live (cancel t)"
  by (cases t) (simp_all add: cancel_def)

lemma cancel_ended [simp]: "\<not> live t \<Longrightarrow> cancel t = t"
  by (simp add: cancel_def)

lemma ownedI:
  assumes "\<And>t. t < length (tasks s) \<Longrightarrow> live (tasks s ! t) \<Longrightarrow> pending_stream_up (chan s) = Some t"
    and "\<And>t. pending_stream_up (chan s) = Some t \<Longrightarrow> t < length (tasks s)"
  shows "owned s"
  using assms unfolding owned_def by blast

lemma owned_live:
  "owned s \<Longrightarrow> t < length (tasks s) \<Longrightarrow> live (tasks s ! t) \<Longrightarrow> pending_stream_up (chan s) = Some t"
  unfolding owned_def by blast

lemma owned_bound:
  "owned s \<Longrightarrow> pending_stream_up (chan s) = Some t \<Longrightarrow> t < length (tasks s)"
  unfolding owned_def by blast

lemma owned_fresh: "owned (fresh ch)"
  by (simp add: owned_def fresh_def)

lemma owned_set_online:
  assumes o: "owned s"
  shows "owned (set_online s)"
proof (cases "online (chan s) \<or> pending_online (chan s)")
  case True
  with o show ?thesis by (simp add: set_online_def)
next
  case False
  then have eq: "set_online s =
      s\<lparr>chan := (chan s)\<lparr>pending_stream_up := Some (length (tasks s))\<rparr>,
        tasks := tasks s @ [Sleeping]\<rparr>"
    by (simp add: set_online_def)
  from False have none: "pending_stream_up (chan s) = None"
    by (simp add: pending_online_def)
  have dead: "\<not> live (tasks s ! t)" if "t < length (tasks s)" for t
    using owned_live [OF o that] none by auto
  show ?thesis
  proof (rule ownedI)
    fix t
    assume t: "t < length (tasks (set_online s))" and l: "live (tasks (set_online s) ! t)"
    from t have "t < length (tasks s) \<or> t = length (tasks s)"
      by (auto simp: eq)
    then show "pending_stream_up (chan (set_online s)) = Some t"
    proof
      assume "t < length (tasks s)"
      with l dead [of t] show ?thesis by (simp add: eq nth_append)
    next
      assume "t = length (tasks s)"
      then show ?thesis by (simp add: eq)
    qed
  next
    fix t
    assume "pending_stream_up (chan (set_online s)) = Some t"
    then show "t < length (tasks (set_online s))" by (simp add: eq)
  qed
qed

lemma set_offline_chan:
  "stream (chan (set_offline s)) = None \<and> pending_stream_up (chan (set_offline s)) = None"
  by (simp add: set_offline_def Let_def split: option.splits)

lemma set_offline_length: "length (tasks (set_offline s)) = length (tasks s)"
  by (simp add: set_offline_def Let_def split: option.splits)

lemma set_offline_tasks:
  "tasks (set_offline s) =
     (case pending_stream_up (chan s) of
        None \<Rightarrow> tasks s
      | Some t \<Rightarrow> if t < length (tasks s) then (tasks s)[t := cancel (tasks s ! t)] else tasks s)"
  by (simp add: set_offline_def Let_def split: option.splits)

lemma set_offline_cancels:
  "pending_stream_up (chan s) = Some t \<Longrightarrow> t < length (tasks s) \<Longrightarrow>
     tasks (set_offline s) ! t = cancel (tasks s ! t)"
  by (simp add: set_offline_tasks)

lemma set_offline_keeps_ended:
  "t < length (tasks s) \<Longrightarrow> \<not> live (tasks s ! t) \<Longrightarrow> \<not> live (tasks (set_offline s) ! t)"
  by (simp add: set_offline_tasks nth_list_update split: option.splits)

lemma set_offline_ends_owned:
  assumes o: "owned s" and t: "t < length (tasks s)"
  shows "\<not> live (tasks (set_offline s) ! t)"
proof (cases "live (tasks s ! t)")
  case False
  with t show ?thesis by (rule set_offline_keeps_ended)
next
  case True
  from owned_live [OF o t True] t show ?thesis
    by (simp add: set_offline_cancels)
qed

lemma owned_set_offline:
  assumes o: "owned s"
  shows "owned (set_offline s)"
proof (rule ownedI)
  fix t
  assume "t < length (tasks (set_offline s))" and l: "live (tasks (set_offline s) ! t)"
  then have "t < length (tasks s)" by (simp add: set_offline_length)
  from set_offline_ends_owned [OF o this] l
  show "pending_stream_up (chan (set_offline s)) = Some t" by simp
next
  fix t
  assume "pending_stream_up (chan (set_offline s)) = Some t"
  then show "t < length (tasks (set_offline s))" by (simp add: set_offline_chan)
qed

lemma owned_sleep_done:
  assumes o: "owned s"
  shows "owned (sleep_done t s)"
proof (cases "t < length (tasks s) \<and> tasks s ! t = Sleeping")
  case False
  then have "sleep_done t s = s" by (auto simp: sleep_done_def)
  with o show ?thesis by simp
next
  case True
  then have eq: "sleep_done t s = s\<lparr>tasks := (tasks s)[t := Querying]\<rparr>"
    by (simp add: sleep_done_def)
  from True have p: "pending_stream_up (chan s) = Some t"
    using owned_live [OF o, of t] by simp
  show ?thesis
  proof (rule ownedI)
    fix u
    assume u: "u < length (tasks (sleep_done t s))" and l: "live (tasks (sleep_done t s) ! u)"
    show "pending_stream_up (chan (sleep_done t s)) = Some u"
    proof (cases "u = t")
      case True
      with p show ?thesis by (simp add: eq)
    next
      case False
      with u l have "u < length (tasks s)" "live (tasks s ! u)" by (simp_all add: eq)
      from owned_live [OF o this] show ?thesis by (simp add: eq)
    qed
  next
    fix u
    assume "pending_stream_up (chan (sleep_done t s)) = Some u"
    then have "pending_stream_up (chan s) = Some u" by (simp add: eq)
    from owned_bound [OF o this] show "u < length (tasks (sleep_done t s))" by (simp add: eq)
  qed
qed

lemma owned_query_done:
  assumes o: "owned s"
  shows "owned (query_done TAG Game t gql now s)"
proof (cases "t < length (tasks s) \<and> tasks s ! t = Querying")
  case False
  then have "query_done TAG Game t gql now s = s" by (auto simp: query_done_def)
  with o show ?thesis by simp
next
  case True
  then have p: "pending_stream_up (chan s) = Some t"
    using owned_live [OF o, of t] by simp
  have others: "\<not> live (tasks s ! u)" if "u < length (tasks s)" "u \<noteq> t" for u
    using owned_live [OF o that(1)] p that(2) by auto
  obtain ch' r where od: "online_delay TAG Game now gql (chan s) = (ch', r)"
    by (cases "online_delay TAG Game now gql (chan s)")
  from online_delay_pending [of TAG Game now gql "chan s"] od p
  have p': "pending_stream_up ch' = None \<or> pending_stream_up ch' = Some t"
    by simp
  obtain k where k: "\<not> live k"
    and eq: "query_done TAG Game t gql now s = s\<lparr>chan := ch', tasks := (tasks s)[t := k]\<rparr>"
  proof (cases r)
    case (Inl e)
    with True od have "query_done TAG Game t gql now s = s\<lparr>chan := ch', tasks := (tasks s)[t := Failed e]\<rparr>"
      by (simp add: query_done_def)
    then show ?thesis using that [of "Failed e"] by simp
  next
    case (Inr v)
    with True od have "query_done TAG Game t gql now s = s\<lparr>chan := ch', tasks := (tasks s)[t := Finished]\<rparr>"
      by (simp add: query_done_def)
    then show ?thesis using that [of Finished] by simp
  qed
  show ?thesis
  proof (rule ownedI)
    fix u
    assume u: "u < length (tasks (query_done TAG Game t gql now s))"
      and l: "live (tasks (query_done TAG Game t gql now s) ! u)"
    from u have u': "u < length (tasks s)" by (simp add: eq)
    show "pending_stream_up (chan (query_done TAG Game t gql now s)) = Some u"
    proof (cases "u = t")
      case True
      with l k u' show ?thesis by (simp add: eq)
    next
      case False
      with l others [OF u' False] show ?thesis by (simp add: eq)
    qed
  next
    fix u
    assume "pending_stream_up (chan (query_done TAG Game t gql now s)) = Some u"
    with p' have "u = t" by (auto simp: eq)
    with True show "u < length (tasks (query_done TAG Game t gql now s))" by (simp add: eq)
  qed
qed

lemma owned_reconciled:
  assumes o: "owned s"
  shows "owned (s\<lparr>chan := fst (get_stream TAG Game now gql (chan s))\<rparr>)"
proof (rule ownedI)
  fix t
  assume "t < length (tasks (s\<lparr>chan := fst (get_stream TAG Game now gql (chan s))\<rparr>))"
    and "live (tasks (s\<lparr>chan := fst (get_stream TAG Game now gql (chan s))\<rparr>) ! t)"
  then have "t < length (tasks s)" "live (tasks s ! t)" by simp_all
  from owned_live [OF o this]
  show "pending_stream_up (chan (s\<lparr>chan := fst (get_stream TAG Game now gql (chan s))\<rparr>)) = Some t"
    by (simp add: get_stream_pending)
next
  fix t
  assume "pending_stream_up (chan (s\<lparr>chan := fst (get_stream TAG Game now gql (chan s))\<rparr>)) = Some t"
  then have "pending_stream_up (chan s) = Some t" by (simp add: get_stream_pending)
  from owned_bound [OF o this]
  show "t < length (tasks (s\<lparr>chan := fst (get_stream TAG Game now gql (chan s))\<rparr>))" by simp
qed

lemma owned_cached:
  assumes o: "owned s"
  shows "owned (s\<lparr>chan := (chan s)\<lparr>spade_url := u\<rparr>\<rparr>)"
proof (rule ownedI)
  fix t
  assume "t < length (tasks (s\<lparr>chan := (chan s)\<lparr>spade_url := u\<rparr>\<rparr>))"
    and "live (tasks (s\<lparr>chan := (chan s)\<lparr>spade_url := u\<rparr>\<rparr>) ! t)"
  then have "t < length (tasks s)" "live (tasks s ! t)" by simp_all
  from owned_live [OF o this]
  show "pending_stream_up (chan (s\<lparr>chan := (chan s)\<lparr>spade_url := u\<rparr>\<rparr>)) = Some t"
    by simp
next
  fix t
  assume "pending_stream_up (chan (s\<lparr>chan := (chan s)\<lparr>spade_url := u\<rparr>\<rparr>)) = Some t"
  then have "pending_stream_up (chan s) = Some t" by simp
  from owned_bound [OF o this]
  show "t < length (tasks (s\<lparr>chan := (chan s)\<lparr>spade_url := u\<rparr>\<rparr>))" by simp
qed

lemma owned_step: "owned s \<Longrightarrow> owned (step TAG Game s ev)"
  by (cases ev)
    (simp_all add: owned_set_online owned_set_offline owned_sleep_done owned_query_done
      owned_reconciled owned_cached)

lemma owned_run: "owned s \<Longrightarrow> owned (run TAG Game s evs)"
  unfolding run_def by (induction evs arbitrary: s) (simp_all add: owned_step)

lemma ended_uptoI:
  assumes "n \<le> length (tasks s)" and "\<And>t. t < n \<Longrightarrow> \<not> live (tasks s ! t)"
  shows "ended_upto n s"
  using assms unfolding ended_upto_def by blast

lemma ended_upto_bound: "ended_upto n s \<Longrightarrow> n \<le> length (tasks s)"
  unfolding ended_upto_def by blast

lemma ended_upto_ended: "ended_upto n s \<Longrightarrow> t < n \<Longrightarrow> \<not> live (tasks s ! t)"
  unfolding ended_upto_def by blast

lemma ended_task_steps:
  assumes e: "ended_upto n s" and t: "t < n"
  shows "sleep_done t s = s \<and> query_done TAG Game t gql now s = s"
proof -
  from ended_upto_ended [OF e t] have "tasks s ! t \<noteq> Sleeping" "tasks s ! t \<noteq> Querying"
    by auto
  then show ?thesis by (auto simp: sleep_done_def query_done_def)
qed

lemma ended_upto_set_online:
  assumes e: "ended_upto n s"
  shows "ended_upto n (set_online s)"
proof (rule ended_uptoI)
  from ended_upto_bound [OF e] show "n \<le> length (tasks (set_online s))"
    by (simp add: set_online_def)
next
  fix t
  assume t: "t < n"
  with ended_upto_bound [OF e] have "t < length (tasks s)" by simp
  with ended_upto_ended [OF e t] show "\<not> live (tasks (set_online s) ! t)"
    by (simp add: set_online_def nth_append)
qed

lemma ended_upto_set_offline:
  assumes e: "ended_upto n s"
  shows "ended_upto n (set_offline s)"
proof (rule ended_uptoI)
  from ended_upto_bound [OF e] show "n \<le> length (tasks (set_offline s))"
    by (simp add: set_offline_length)
next
  fix t
  assume t: "t < n"
  with ended_upto_bound [OF e] have "t < length (tasks s)" by simp
  from set_offline_keeps_ended [OF this ended_upto_ended [OF e t]]
  show "\<not> live (tasks (set_offline s) ! t)" .
qed

lemma sleep_done_tasks:
  "length (tasks (sleep_done t s)) = length (tasks s) \<and>
   (u \<noteq> t \<longrightarrow> tasks (sleep_done t s) ! u = tasks s ! u)"
  by (simp add: sleep_done_def)

lemma query_done_tasks:
  "length (tasks (query_done TAG Game t gql now s)) = length (tasks s) \<and>
   (u \<noteq> t \<longrightarrow> tasks (query_done TAG Game t gql now s) ! u = tasks s ! u)"
  by (simp add: query_done_def split: prod.splits sum.splits)

lemma ended_upto_sleep_done:
  assumes e: "ended_upto n s"
  shows "ended_upto n (sleep_done t s)"
proof (cases "t < n")
  case True
  with ended_task_steps [OF e True] e show ?thesis by simp
next
  case False
  show ?thesis
  proof (rule ended_uptoI)
    from ended_upto_bound [OF e] show "n \<le> length (tasks (sleep_done t s))"
      by (simp add: sleep_done_tasks)
  next
    fix u
    assume u: "u < n"
    with False have "u \<noteq> t" by auto
    with ended_upto_ended [OF e u] sleep_done_tasks [of t s u]
    show "\<not> live (tasks (sleep_done t s) ! u)" by simp
  qed
qed

lemma ended_upto_query_done:
  assumes e: "ended_upto n s"
  shows "ended_upto n (query_done TAG Game t gql now s)"
proof (cases "t < n")
  case True
  with ended_task_steps [OF e True] e show ?thesis by simp
next
  case False
  show ?thesis
  proof (rule ended_uptoI)
    from ended_upto_bound [OF e] show "n \<le> length (tasks (query_done TAG Game t gql now s))"
      by (simp add: query_done_tasks)
  next
    fix u
    assume u: "u < n"
    with False have "u \<noteq> t" by auto
    with ended_upto_ended [OF e u] query_done_tasks [of TAG Game t gql now s u]
    show "\<not> live (tasks (query_done TAG Game t gql now s) ! u)" by simp
  qed
qed

lemma ended_upto_reconciled:
  "ended_upto n s \<Longrightarrow> ended_upto n (s\<lparr>chan := c\<rparr>)"
  unfolding ended_upto_def by simp

lemma ended_upto_step: "ended_upto n s \<Longrightarrow> ended_upto n (step TAG Game s ev)"
  by (cases ev)
    (simp_all add: ended_upto_set_online ended_upto_set_offline ended_upto_sleep_done
      ended_upto_query_done ended_upto_reconciled)

lemma ended_upto_run: "ended_upto n s \<Longrightarrow> ended_upto n (run TAG Game s evs)"
  unfolding run_def by (induction evs arbitrary: s) (simp_all add: ended_upto_step)

lemma set_offline_ends_all:
  assumes o: "owned s"
  shows "ended_upto (length (tasks s)) (set_offline s)"
proof (rule ended_uptoI)
  show "length (tasks s) \<le> length (tasks (set_offline s))"
    by (simp add: set_offline_length)
next
  fix t
  assume "t < length (tasks s)"
  then show "\<not> live (tasks (set_offline s) ! t)"
    by (rule set_offline_ends_owned [OF o])
qed

lemma quiet_step:
  assumes q: "quiet s" and nb: "\<not> brings_online ev"
  shows "quiet (step TAG Game s ev)"
proof -
  from q have st: "stream (chan s) = None" and e: "ended_upto (length (tasks s)) s"
    by (simp_all add: quiet_def)
  show ?thesis
  proof (cases ev)
    case SetOnline
    with nb show ?thesis by simp
  next
    case (Reconciled gql now)
    with nb show ?thesis by simp
  next
    case (EndpointCached u)
    with q show ?thesis by (simp add: quiet_def ended_upto_def)
  next
    case SetOffline
    from ended_upto_set_offline [OF e] have "ended_upto (length (tasks (set_offline s))) (set_offline s)"
      by (simp add: set_offline_length)
    with SetOffline show ?thesis
      by (simp add: quiet_def set_offline_chan)
  next
    case (SleepDone t)
    have "sleep_done t s = s"
    proof (cases "t < length (tasks s)")
      case True
      from ended_task_steps [OF e True] show ?thesis by simp
    next
      case False
      then show ?thesis by (simp add: sleep_done_def)
    qed
    with SleepDone q show ?thesis by simp
  next
    case (QueryDone t gql now)
    have "query_done TAG Game t gql now s = s"
    proof (cases "t < length (tasks s)")
      case True
      from ended_task_steps [OF e True] show ?thesis by simp
    next
      case False
      then show ?thesis by (simp add: query_done_def)
    qed
    with QueryDone q show ?thesis by simp
  qed
qed

lemma quiet_run:
  "quiet s \<Longrightarrow> \<forall>ev \<in> set evs. \<not> brings_online ev \<Longrightarrow> quiet (run TAG Game s evs)"
  unfolding run_def by (induction evs arbitrary: s) (simp_all add: quiet_step)

lemma quiet_set_offline:
  assumes "owned s"
  shows "quiet (set_offline s)"
proof -
  from set_offline_ends_all [OF assms]
  have "ended_upto (length (tasks (set_offline s))) (set_offline s)"
    by (simp add: set_offline_length)
  then show ?thesis by (simp add: quiet_def set_offline_chan)
qed

text \<open>
  C1. In every state a channel can reach, \<^verbatim>\<open>set_offline\<close> leaves it neither online nor
  pending online; the task the channel referred to has been cancelled; every task created
  before the call has ended, stays ended whatever happens later, and its resumptions change
  nothing; and as long as no new signal to go online and no reconciliation from outside
  arrives, the stream stays \<^verbatim>\<open>None\<close>.
\<close>

theorem set_offline_final:
  assumes "s = run TAG Game (fresh ch0) evs0"
  shows "\<not> online (chan (set_offline s)) \<and> \<not> pending_online (chan (set_offline s)) \<and>
    (\<forall>t. pending_stream_up (chan s) = Some t \<longrightarrow>
       t < length (tasks s) \<and> tasks (set_offline s) ! t = cancel (tasks s ! t)) \<and>
    (\<forall>t evs gql now. t < length (tasks s) \<longrightarrow>
       \<not> live (tasks (run TAG Game (set_offline s) evs) ! t) \<and>
       step TAG Game (run TAG Game (set_offline s) evs) (SleepDone t) =
         run TAG Game (set_offline s) evs \<and>
       step TAG Game (run TAG Game (set_offline s) evs) (QueryDone t gql now) =
         run TAG Game (set_offline s) evs) \<and>
    (\<forall>evs. (\<forall>ev \<in> set evs. \<not> brings_online ev) \<longrightarrow>
       stream (chan (run TAG Game (set_offline s) evs)) = None)"
proof (intro conjI allI impI)
  from assms have o: "owned s"
    by (simp add: owned_run owned_fresh)
  show "\<not> online (chan (set_offline s))"
    by (simp add: online_def set_offline_chan)
  show "\<not> pending_online (chan (set_offline s))"
    by (simp add: pending_online_def set_offline_chan)
  {
    fix t
    assume p: "pending_stream_up (chan s) = Some t"
    from owned_bound [OF o p] show b: "t < length (tasks s)" .
    from set_offline_cancels [OF p b]
    show "tasks (set_offline s) ! t = cancel (tasks s ! t)" .
  }
  {
    fix t evs gql now
    assume t: "t < length (tasks s)"
    from set_offline_ends_all [OF o]
    have e: "ended_upto (length (tasks s)) (run TAG Game (set_offline s) evs)"
      by (rule ended_upto_run)
    from ended_upto_ended [OF e t]
    show "\<not> live (tasks (run TAG Game (set_offline s) evs) ! t)" .
    from ended_task_steps [OF e t]
    show "step TAG Game (run TAG Game (set_offline s) evs) (SleepDone t) =
         run TAG Game (set_offline s) evs"
      and "step TAG Game (run TAG Game (set_offline s) evs) (QueryDone t gql now) =
         run TAG Game (set_offline s) evs"
      by simp_all
  }
  {
    fix evs
    assume "\<forall>ev \<in> set evs. \<not> brings_online ev"
    from quiet_run [OF quiet_set_offline [OF o] this]
    show "stream (chan (run TAG Game (set_offline s) evs)) = None"
      by (simp add: quiet_def)
  }
qed

lemma example_pending_run:
  "run ''drops'' Inr (fresh example_channel) [SetOnline, SleepDone 0] =
     \<lparr>chan = example_channel\<lparr>pending_stream_up := Some 0\<rparr>, tasks = [Querying]\<rparr>"
  by (simp add: run_def fresh_def example_channel_def Channel_init_def set_online_def
      sleep_done_def online_def pending_online_def)

lemma example_set_offline:
  "set_offline \<lparr>chan = example_channel\<lparr>pending_stream_up := Some 0\<rparr>, tasks = [Querying]\<rparr> =
     \<lparr>chan = example_channel, tasks = [Cancelled]\<rparr>"
  by (simp add: set_offline_def example_channel_def Channel_init_def cancel_def)

theorem set_offline_final_witness:
  "pending_online (chan (run ''drops'' Inr (fresh example_channel) [SetOnline, SleepDone 0])) \<and>
   set_offline (run ''drops'' Inr (fresh example_channel) [SetOnline, SleepDone 0]) =
     \<lparr>chan = example_channel, tasks = [Cancelled]\<rparr> \<and>
   \<not> online example_channel \<and> \<not> pending_online example_channel \<and>
   step ''drops'' Inr \<lparr>chan = example_channel, tasks = [Cancelled]\<rparr>
       (QueryDone 0 (Inr example_response) 7) =
     \<lparr>chan = example_channel, tasks = [Cancelled]\<rparr> \<and>
   stream (chan (run ''drops'' Inr \<lparr>chan = example_channel, tasks = [Cancelled]\<rparr>
       [SleepDone 0, QueryDone 0 (Inr example_response) 7])) = None"
proof -
  let ?s = "run ''drops'' Inr (fresh example_channel) [SetOnline, SleepDone 0]"
  note th = set_offline_final [of ?s "''drops''" Inr example_channel "[SetOnline, SleepDone 0]",
      OF refl]
  have so: "set_offline ?s = \<lparr>chan = example_channel, tasks = [Cancelled]\<rparr>"
    by (simp add: example_pending_run example_set_offline)
  have p: "pending_online (chan ?s)"
    by (simp add: example_pending_run pending_online_def)
  from th have 1: "\<not> online (chan (set_offline ?s))" "\<not> pending_online (chan (set_offline ?s))"
    by blast+
  from th have "\<forall>t evs gql now. t < length (tasks ?s) \<longrightarrow>
       step ''drops'' Inr (run ''drops'' Inr (set_offline ?s) evs) (QueryDone t gql now) =
         run ''drops'' Inr (set_offline ?s) evs"
    by blast
  then have "0 < length (tasks ?s) \<longrightarrow>
       step ''drops'' Inr (run ''drops'' Inr (set_offline ?s) []) (QueryDone 0 (Inr example_response) 7) =
         run ''drops'' Inr (set_offline ?s) []"
    by blast
  moreover have "0 < length (tasks ?s)"
    by (simp add: example_pending_run)
  moreover have "run ''drops'' Inr (set_offline ?s) [] = set_offline ?s"
    by (simp add: run_def)
  ultimately have 2: "step ''drops'' Inr (set_offline ?s) (QueryDone 0 (Inr example_response) 7) =
         set_offline ?s"
    by metis
  from th have "\<forall>evs. (\<forall>ev \<in> set evs. \<not> brings_online ev) \<longrightarrow>
       stream (chan (run ''drops'' Inr (set_offline ?s) evs)) = None"
    by blast
  then have "(\<forall>ev \<in> set [SleepDone 0, QueryDone 0 (Inr example_response) 7]. \<not> brings_online ev) \<longrightarrow>
       stream (chan (run ''drops'' Inr (set_offline ?s)
          [SleepDone 0, QueryDone 0 (Inr example_response) 7])) = None"
    by blast
  then have 3: "stream (chan (run ''drops'' Inr (set_offline ?s)
          [SleepDone 0, QueryDone 0 (Inr example_response) 7])) = None"
    by simp
  from p so 1 2 3 show ?thesis by simp
qed

text \<open>
  C2. \<^verbatim>\<open>set_online\<close> on a channel that is online or pending online changes nothing and
  creates no task; a second call right after a first changes nothing, so two calls in a row
  create at most one task.
\<close>

theorem set_online_idempotent:
  "(online (chan s) \<or> pending_online (chan s) \<longrightarrow> set_online s = s) \<and>
   set_online (set_online s) = set_online s \<and>
   length (tasks (set_online (set_online s))) \<le> Suc (length (tasks s))"
  by (simp add: set_online_def pending_online_def)

theorem set_online_idempotent_witness:
  "pending_online (chan (set_online (fresh example_channel))) \<and>
   set_online (set_online (fresh example_channel)) = set_online (fresh example_channel) \<and>
   tasks (set_online (set_online (fresh example_channel))) = [Sleeping]"
proof -
  have p: "pending_online (chan (set_online (fresh example_channel)))"
    by (simp add: set_online_def fresh_def example_channel_def Channel_init_def online_def
        pending_online_def)
  have t: "tasks (set_online (fresh example_channel)) = [Sleeping]"
    by (simp add: set_online_def fresh_def example_channel_def Channel_init_def online_def
        pending_online_def)
  from set_online_idempotent [of "set_online (fresh example_channel)"] p
  have "set_online (set_online (fresh example_channel)) = set_online (fresh example_channel)"
    by blast
  with p t show ?thesis by simp
qed

subsection \<open>Patterns and the matcher\<close>

lemma rx_foundI: "s = w @ v \<Longrightarrow> rx_cap p rec cap w g \<Longrightarrow> rx_found p rec cap s g"
  unfolding rx_found_def by blast

lemma rx_foundE:
  assumes "rx_found p rec cap s g"
  obtains w v where "s = w @ v" and "rx_cap p rec cap w g"
  using assms unfolding rx_found_def by blast

lemma rx_found_Nil [simp]: "rx_found [] rec cap s g = (g = cap)"
  by (simp add: rx_found_def)

lemma rx_found_GroupOpen [simp]:
  "rx_found (GroupOpen # p) rec cap s g = rx_found p True cap s g"
  by (simp add: rx_found_def)

lemma rx_found_GroupClose [simp]:
  "rx_found (GroupClose # p) rec cap s g = rx_found p False cap s g"
  by (simp add: rx_found_def)

lemma rx_found_Lit_Nil [simp]: "rx_found (Lit c # p) rec cap [] g = False"
  by (simp add: rx_found_def)

lemma rx_found_Cls_Nil [simp]: "rx_found (Cls f # p) rec cap [] g = False"
  by (simp add: rx_found_def)

lemma rx_found_Opt_Nil [simp]: "rx_found (Opt c # p) rec cap [] g = rx_found p rec cap [] g"
  by (simp add: rx_found_def)

lemma rx_found_Plus_Nil [simp]: "rx_found (Plus f # p) rec cap [] g = False"
  by (simp add: rx_found_def)

lemma rx_found_Lit_Cons [simp]:
  "rx_found (Lit c # p) rec cap (x # xs) g =
     (same_nocase x c \<and> rx_found p rec (capture rec cap x) xs g)"
proof
  assume "rx_found (Lit c # p) rec cap (x # xs) g"
  then obtain w v where s: "x # xs = w @ v" and l: "rx_cap (Lit c # p) rec cap w g"
    by (rule rx_foundE)
  from l obtain y ys where w: "w = y # ys" by (cases w) auto
  with s have "y = x" "xs = ys @ v" by simp_all
  with l w show "same_nocase x c \<and> rx_found p rec (capture rec cap x) xs g"
    by (auto intro: rx_foundI)
next
  assume a: "same_nocase x c \<and> rx_found p rec (capture rec cap x) xs g"
  then obtain w v where "xs = w @ v" "rx_cap p rec (capture rec cap x) w g"
    by (auto elim: rx_foundE)
  with a have "x # xs = (x # w) @ v" "rx_cap (Lit c # p) rec cap (x # w) g" by simp_all
  then show "rx_found (Lit c # p) rec cap (x # xs) g" by (rule rx_foundI)
qed

lemma rx_found_Cls_Cons [simp]:
  "rx_found (Cls f # p) rec cap (x # xs) g =
     (f x \<and> rx_found p rec (capture rec cap x) xs g)"
proof
  assume "rx_found (Cls f # p) rec cap (x # xs) g"
  then obtain w v where s: "x # xs = w @ v" and l: "rx_cap (Cls f # p) rec cap w g"
    by (rule rx_foundE)
  from l obtain y ys where w: "w = y # ys" by (cases w) auto
  with s have "y = x" "xs = ys @ v" by simp_all
  with l w show "f x \<and> rx_found p rec (capture rec cap x) xs g"
    by (auto intro: rx_foundI)
next
  assume a: "f x \<and> rx_found p rec (capture rec cap x) xs g"
  then obtain w v where "xs = w @ v" "rx_cap p rec (capture rec cap x) w g"
    by (auto elim: rx_foundE)
  with a have "x # xs = (x # w) @ v" "rx_cap (Cls f # p) rec cap (x # w) g" by simp_all
  then show "rx_found (Cls f # p) rec cap (x # xs) g" by (rule rx_foundI)
qed

lemma rx_found_Opt_Cons [simp]:
  "rx_found (Opt c # p) rec cap (x # xs) g =
     (rx_found p rec cap (x # xs) g \<or>
      (same_nocase x c \<and> rx_found p rec (capture rec cap x) xs g))"
proof
  assume "rx_found (Opt c # p) rec cap (x # xs) g"
  then obtain w v where s: "x # xs = w @ v" and l: "rx_cap (Opt c # p) rec cap w g"
    by (rule rx_foundE)
  show "rx_found p rec cap (x # xs) g \<or>
      (same_nocase x c \<and> rx_found p rec (capture rec cap x) xs g)"
  proof (cases w)
    case Nil
    with l have "rx_cap p rec cap [] g" by simp
    with s Nil have "rx_found p rec cap (x # xs) g" by (auto intro: rx_foundI)
    then show ?thesis by simp
  next
    case (Cons y ys)
    with s have x: "y = x" and xs: "xs = ys @ v" by simp_all
    from l Cons x have "rx_cap p rec cap (x # ys) g \<or>
        (same_nocase x c \<and> rx_cap p rec (capture rec cap x) ys g)" by simp
    then show ?thesis
    proof
      assume c: "rx_cap p rec cap (x # ys) g"
      from xs have "x # xs = (x # ys) @ v" by simp
      from this c have "rx_found p rec cap (x # xs) g" by (rule rx_foundI)
      then show ?thesis by simp
    next
      assume c: "same_nocase x c \<and> rx_cap p rec (capture rec cap x) ys g"
      then have "rx_found p rec (capture rec cap x) xs g"
        using xs by (blast intro: rx_foundI)
      with c show ?thesis by simp
    qed
  qed
next
  assume "rx_found p rec cap (x # xs) g \<or>
      (same_nocase x c \<and> rx_found p rec (capture rec cap x) xs g)"
  then show "rx_found (Opt c # p) rec cap (x # xs) g"
  proof
    assume "rx_found p rec cap (x # xs) g"
    then obtain w v where s: "x # xs = w @ v" and l: "rx_cap p rec cap w g"
      by (rule rx_foundE)
    from l have "rx_cap (Opt c # p) rec cap w g" by (cases w) auto
    with s show ?thesis by (rule rx_foundI)
  next
    assume a: "same_nocase x c \<and> rx_found p rec (capture rec cap x) xs g"
    then obtain w v where "xs = w @ v" "rx_cap p rec (capture rec cap x) w g"
      by (auto elim: rx_foundE)
    with a have "x # xs = (x # w) @ v" "rx_cap (Opt c # p) rec cap (x # w) g" by simp_all
    then show ?thesis by (rule rx_foundI)
  qed
qed

lemma rx_found_Plus_Cons [simp]:
  "rx_found (Plus f # p) rec cap (x # xs) g =
     (f x \<and> (rx_found p rec (capture rec cap x) xs g \<or>
             rx_found (Plus f # p) rec (capture rec cap x) xs g))"
proof
  assume "rx_found (Plus f # p) rec cap (x # xs) g"
  then obtain w v where s: "x # xs = w @ v" and l: "rx_cap (Plus f # p) rec cap w g"
    by (rule rx_foundE)
  from l obtain y ys where w: "w = y # ys" by (cases w) auto
  with s have "y = x" "xs = ys @ v" by simp_all
  with l w show "f x \<and> (rx_found p rec (capture rec cap x) xs g \<or>
             rx_found (Plus f # p) rec (capture rec cap x) xs g)"
    by (auto intro: rx_foundI)
next
  assume a: "f x \<and> (rx_found p rec (capture rec cap x) xs g \<or>
             rx_found (Plus f # p) rec (capture rec cap x) xs g)"
  then obtain w v where "xs = w @ v"
    "rx_cap p rec (capture rec cap x) w g \<or> rx_cap (Plus f # p) rec (capture rec cap x) w g"
    by (auto elim: rx_foundE)
  with a have "x # xs = (x # w) @ v" "rx_cap (Plus f # p) rec cap (x # w) g" by simp_all
  then show "rx_found (Plus f # p) rec cap (x # xs) g" by (rule rx_foundI)
qed

text \<open>The matcher finds a match when there is one, and what it returns is one.\<close>

lemma rx_match_sound: "rx_match p rec cap s = Some g \<Longrightarrow> rx_found p rec cap s g"
  by (induction p rec cap s arbitrary: g rule: rx_match.induct)
    (auto split: if_splits option.splits)

lemma rx_match_complete: "rx_match p rec cap s = None \<Longrightarrow> \<not> rx_found p rec cap s g"
proof (induction p rec cap s arbitrary: g rule: rx_match.induct)
  case (9 c p rec cap x xs)
  show ?case
  proof (cases "same_nocase x c")
    case False
    with 9 show ?thesis by simp
  next
    case True
    with "9.prems" have n: "rx_match p rec (capture rec cap x) xs = None"
      and m: "rx_match p rec cap (x # xs) = None"
      by (simp_all split: option.splits)
    from "9.IH"(1) [OF True n] "9.IH"(2) [OF True n m] show ?thesis by simp
  qed
next
  case (11 f p rec cap x xs)
  show ?case
  proof (cases "f x")
    case False
    then show ?thesis by simp
  next
    case True
    with "11.prems" have n: "rx_match (Plus f # p) rec (capture rec cap x) xs = None"
      and m: "rx_match p rec (capture rec cap x) xs = None"
      by (simp_all split: option.splits)
    from "11.IH"(1) [OF True n] "11.IH"(2) [OF True n m] show ?thesis by simp
  qed
qed (auto split: if_splits)

text \<open>The same for a search: a match somewhere in the text.\<close>

lemma re_search_sound:
  "re_search p s = Some g \<Longrightarrow> \<exists>u w v. s = u @ w @ v \<and> rx_cap p False [] w g"
proof (induction s)
  case Nil
  then have "rx_found p False [] [] g" by (simp add: rx_match_sound)
  then obtain w v where "[] = w @ v" "rx_cap p False [] w g" by (rule rx_foundE)
  then have "[] = [] @ w @ v \<and> rx_cap p False [] w g" by simp
  then show ?case by blast
next
  case (Cons x xs)
  show ?case
  proof (cases "rx_match p False [] (x # xs)")
    case None
    with Cons.prems have "re_search p xs = Some g" by simp
    with Cons.IH obtain u w v where "xs = u @ w @ v" "rx_cap p False [] w g" by blast
    then have "x # xs = (x # u) @ w @ v \<and> rx_cap p False [] w g" by simp
    then show ?thesis by blast
  next
    case (Some h)
    with Cons.prems have "rx_match p False [] (x # xs) = Some g" by simp
    then have "rx_found p False [] (x # xs) g" by (rule rx_match_sound)
    then obtain w v where "x # xs = w @ v" "rx_cap p False [] w g" by (rule rx_foundE)
    then have "x # xs = [] @ w @ v \<and> rx_cap p False [] w g" by simp
    then show ?thesis by blast
  qed
qed

lemma re_search_complete:
  "re_search p s = None \<Longrightarrow> s = u @ w @ v \<Longrightarrow> \<not> rx_cap p False [] w g"
proof (induction s arbitrary: u)
  case Nil
  then have "\<not> rx_found p False [] [] g" by (simp add: rx_match_complete)
  moreover from Nil have "[] = w @ v" by simp
  ultimately show ?case by (blast intro: rx_foundI)
next
  case (Cons x xs)
  from Cons.prems(1) have m: "rx_match p False [] (x # xs) = None"
    and r: "re_search p xs = None"
    by (simp_all split: option.splits)
  show ?case
  proof (cases u)
    case Nil
    with Cons.prems(2) have "x # xs = w @ v" by simp
    moreover from m have "\<not> rx_found p False [] (x # xs) g" by (rule rx_match_complete)
    ultimately show ?thesis by (blast intro: rx_foundI)
  next
    case (Cons y ys)
    with Cons.prems(2) have "xs = ys @ w @ v" by simp
    with r show ?thesis by (rule Cons.IH)
  qed
qed

lemma re_search_None_iff:
  "(re_search p s = None) = (\<forall>u w v g. s = u @ w @ v \<longrightarrow> \<not> rx_cap p False [] w g)"
proof
  assume "re_search p s = None"
  then show "\<forall>u w v g. s = u @ w @ v \<longrightarrow> \<not> rx_cap p False [] w g"
    by (blast dest: re_search_complete)
next
  assume a: "\<forall>u w v g. s = u @ w @ v \<longrightarrow> \<not> rx_cap p False [] w g"
  show "re_search p s = None"
  proof (cases "re_search p s")
    case None
    then show ?thesis .
  next
    case (Some g)
    from re_search_sound [OF this] a show ?thesis by blast
  qed
qed

subsection \<open>Endpoint discovery and the watch ping\<close>

lemma example_page_search:
  "re_search settings_pattern example_page = Some example_settings_url"
  by code_simp

lemma example_page_no_match: "re_search settings_pattern ''<html></html>'' = None"
  by code_simp

lemma example_script_search: "re_search spade_pattern example_script = Some example_spade"
  by code_simp

lemma example_script_no_match: "re_search spade_pattern ''var x = 1;'' = None"
  by code_simp

lemma example_twitch_get:
  "session_get (example_twitch page script) (url example_channel) = Inr page"
  "session_get (example_twitch page script) example_settings_url = Inr script"
  by (simp_all add: example_twitch_def example_channel_def Channel_init_def
      example_settings_url_def)

text \<open>
  C9. When no part of the page text is a match of the settings-script pattern, discovery
  raises the step-1 error after the one request for the page. When the page has a match and
  no part of the text of the script is a match of the \<^verbatim>\<open>spade_url\<close> pattern, it raises the
  step-2 error. When both have a match, it returns the text of the group of a match in the
  script (the one the search finds). The two errors differ.
\<close>

theorem get_spade_url_steps:
  "(session_get tw (url ch) = Inr html \<and>
    (\<forall>u w v g. html = u @ w @ v \<longrightarrow> \<not> rx_cap settings_pattern False [] w g) \<longrightarrow>
      get_spade_url tw ch =
        ([GET (url ch)], Inl (MinerException ''Error while spade_url extraction: step #1''))) \<and>
   (session_get tw (url ch) = Inr html \<and> re_search settings_pattern html = Some su \<and>
    session_get tw su = Inr js \<and>
    (\<forall>u w v g. js = u @ w @ v \<longrightarrow> \<not> rx_cap spade_pattern False [] w g) \<longrightarrow>
      get_spade_url tw ch =
        ([GET (url ch), GET su],
         Inl (MinerException ''Error while spade_url extraction: step #2''))) \<and>
   (session_get tw (url ch) = Inr html \<and> re_search settings_pattern html = Some su \<and>
    session_get tw su = Inr js \<and> re_search spade_pattern js = Some m \<longrightarrow>
      get_spade_url tw ch = ([GET (url ch), GET su], Inr m) \<and>
      (\<exists>u w v. html = u @ w @ v \<and> rx_cap settings_pattern False [] w su) \<and>
      (\<exists>u w v. js = u @ w @ v \<and> rx_cap spade_pattern False [] w m)) \<and>
   MinerException ''Error while spade_url extraction: step #1'' \<noteq>
     MinerException ''Error while spade_url extraction: step #2''"
proof (intro conjI impI)
  assume "session_get tw (url ch) = Inr html \<and>
    (\<forall>u w v g. html = u @ w @ v \<longrightarrow> \<not> rx_cap settings_pattern False [] w g)"
  then have "session_get tw (url ch) = Inr html" "re_search settings_pattern html = None"
    by (simp_all add: re_search_None_iff)
  then show "get_spade_url tw ch =
      ([GET (url ch)], Inl (MinerException ''Error while spade_url extraction: step #1''))"
    by (simp add: get_spade_url_def)
next
  assume "session_get tw (url ch) = Inr html \<and> re_search settings_pattern html = Some su \<and>
    session_get tw su = Inr js \<and>
    (\<forall>u w v g. js = u @ w @ v \<longrightarrow> \<not> rx_cap spade_pattern False [] w g)"
  then have "session_get tw (url ch) = Inr html" "re_search settings_pattern html = Some su"
    "session_get tw su = Inr js" "re_search spade_pattern js = None"
    by (simp_all add: re_search_None_iff)
  then show "get_spade_url tw ch =
      ([GET (url ch), GET su],
       Inl (MinerException ''Error while spade_url extraction: step #2''))"
    by (simp add: get_spade_url_def)
next
  assume a: "session_get tw (url ch) = Inr html \<and> re_search settings_pattern html = Some su \<and>
    session_get tw su = Inr js \<and> re_search spade_pattern js = Some m"
  then show "get_spade_url tw ch = ([GET (url ch), GET su], Inr m)"
    by (simp add: get_spade_url_def)
  from a show "\<exists>u w v. html = u @ w @ v \<and> rx_cap settings_pattern False [] w su"
    by (blast dest: re_search_sound)
  from a show "\<exists>u w v. js = u @ w @ v \<and> rx_cap spade_pattern False [] w m"
    by (blast dest: re_search_sound)
next
  show "MinerException ''Error while spade_url extraction: step #1'' \<noteq>
     MinerException ''Error while spade_url extraction: step #2''"
    by simp
qed

theorem get_spade_url_steps_witness:
  "get_spade_url (example_twitch ''<html></html>'' example_script) example_channel =
     ([GET (url example_channel)],
      Inl (MinerException ''Error while spade_url extraction: step #1'')) \<and>
   get_spade_url (example_twitch example_page ''var x = 1;'') example_channel =
     ([GET (url example_channel), GET example_settings_url],
      Inl (MinerException ''Error while spade_url extraction: step #2'')) \<and>
   get_spade_url (example_twitch example_page example_script) example_channel =
     ([GET (url example_channel), GET example_settings_url], Inr example_spade)"
proof -
  have n1: "\<forall>u w v g. ''<html></html>'' = u @ w @ v \<longrightarrow>
      \<not> rx_cap settings_pattern False [] w g"
    using example_page_no_match by (simp only: re_search_None_iff)
  have n2: "\<forall>u w v g. ''var x = 1;'' = u @ w @ v \<longrightarrow> \<not> rx_cap spade_pattern False [] w g"
    using example_script_no_match by (simp only: re_search_None_iff)
  note a = get_spade_url_steps [of "example_twitch ''<html></html>'' example_script"
      example_channel "''<html></html>''", THEN conjunct1, rule_format,
      OF conjI [OF example_twitch_get(1) n1]]
  note b = get_spade_url_steps [of "example_twitch example_page ''var x = 1;''"
      example_channel example_page example_settings_url "''var x = 1;''",
      THEN conjunct2, THEN conjunct1, rule_format,
      OF conjI [OF example_twitch_get(1)
        conjI [OF example_page_search conjI [OF example_twitch_get(2) n2]]]]
  note c = get_spade_url_steps [of "example_twitch example_page example_script"
      example_channel example_page example_settings_url example_script example_spade,
      THEN conjunct2, THEN conjunct2, THEN conjunct1, rule_format,
      OF conjI [OF example_twitch_get(1)
        conjI [OF example_page_search conjI [OF example_twitch_get(2) example_script_search]]],
      THEN conjunct1]
  from a b c show ?thesis by simp
qed

text \<open>
  C8. On a channel with no stream the watch ping returns at once: no request is made, the
  channel is unchanged (the cached endpoint included) and the value returned is \<^verbatim>\<open>None\<close>.
\<close>

theorem send_watch_offline:
  "stream ch = None \<Longrightarrow> send_watch tw ch = (ch, [], Inr None)"
  by (simp add: send_watch_def online_def)

theorem send_watch_offline_witness:
  "stream (example_channel\<lparr>spade_url := Some example_spade\<rparr>) = None \<and>
   send_watch (example_twitch example_page example_script)
       (example_channel\<lparr>spade_url := Some example_spade\<rparr>) =
     (example_channel\<lparr>spade_url := Some example_spade\<rparr>, [], Inr None)"
proof -
  have "stream (example_channel\<lparr>spade_url := Some example_spade\<rparr>) = None"
    by (simp add: example_channel_def Channel_init_def)
  from this send_watch_offline [OF this, of "example_twitch example_page example_script"]
  show ?thesis by simp
qed

subsection \<open>The encodings of the payload\<close>

lemma of_char_less_256: "(of_char c :: nat) < 256"
  by (cases c) (simp add: of_char_def)

lemma b64chr_alphabet: "map b64chr [0..<64] = b64_alphabet"
  by code_simp

lemma b64val_b64chr: "n < 64 \<Longrightarrow> b64val (b64chr n) = Some n"
  by (auto simp add: b64chr_def b64val_def Let_def)

lemma b64chr_ascii: "n < 64 \<Longrightarrow> (of_char (b64chr n) :: nat) < 128"
  by (auto simp add: b64chr_def)

lemma b64chr_not_pad: "n < 64 \<Longrightarrow> b64chr n \<noteq> CHR ''=''"
proof
  assume "n < 64" and "b64chr n = CHR ''=''"
  with b64val_b64chr [of n] have "b64val (CHR ''='') = Some n" by simp
  then show False by (simp add: b64val_def)
qed

text \<open>The six-bit values of a group of three bytes, and the bytes read back from them.\<close>

lemma sextet_bounds:
  fixes x y z :: nat
  assumes "x < 256" and "y < 256" and "z < 256"
  shows "x div 4 < 64" and "x mod 4 * 16 < 64" and "x mod 4 * 16 + y div 16 < 64"
    and "y mod 16 * 4 < 64" and "y mod 16 * 4 + z div 64 < 64" and "z mod 64 < 64"
proof -
  from assms have a: "y div 16 < 16" "z div 64 < 4" by simp_all
  have "x mod 4 < 4" "y mod 16 < 16" by simp_all
  then have b: "x mod 4 \<le> 3" "y mod 16 \<le> 15" by linarith+
  then have c: "x mod 4 * 16 \<le> 48" "y mod 16 * 4 \<le> 60" by simp_all
  from assms show "x div 4 < 64" by simp
  from c show "x mod 4 * 16 < 64" "y mod 16 * 4 < 64" by linarith+
  from a c show "x mod 4 * 16 + y div 16 < 64" "y mod 16 * 4 + z div 64 < 64" by linarith+
  show "z mod 64 < 64" by simp
qed

lemma sextet_back:
  fixes x y z :: nat
  assumes "y < 256" and "z < 256"
  shows "x div 4 * 4 + (x mod 4 * 16) div 16 = x"
    and "x div 4 * 4 + (x mod 4 * 16 + y div 16) div 16 = x"
    and "(x mod 4 * 16 + y div 16) mod 16 * 16 + (y mod 16 * 4) div 4 = y"
    and "(x mod 4 * 16 + y div 16) mod 16 * 16 + (y mod 16 * 4 + z div 64) div 4 = y"
    and "(y mod 16 * 4 + z div 64) mod 4 * 64 + z mod 64 = z"
proof -
  from assms have a: "y div 16 < 16" and b: "z div 64 < 4" by simp_all
  have m: "(x mod 4 * 16 + y div 16) mod 16 = y div 16"
    using a by simp
  have d: "(y mod 16 * 4 + z div 64) div 4 = y mod 16"
    using b by simp
  have m': "(y mod 16 * 4 + z div 64) mod 4 = z div 64"
    using b by simp
  show "x div 4 * 4 + (x mod 4 * 16) div 16 = x" by simp
  from assms show "x div 4 * 4 + (x mod 4 * 16 + y div 16) div 16 = x"
    by (simp add: div_mult2_eq)
  from m show "(x mod 4 * 16 + y div 16) mod 16 * 16 + (y mod 16 * 4) div 4 = y" by simp
  from m d show "(x mod 4 * 16 + y div 16) mod 16 * 16 + (y mod 16 * 4 + z div 64) div 4 = y"
    by simp
  from m' show "(y mod 16 * 4 + z div 64) mod 4 * 64 + z mod 64 = z" by simp
qed

lemma b64decode_group1:
  assumes "a < 64" and "b < 64"
  shows "b64decode [b64chr a, b64chr b, CHR ''='', CHR ''=''] = Some [char_of (a * 4 + b div 16)]"
  using assms by (simp add: b64val_b64chr)

lemma b64decode_group2:
  assumes "a < 64" and "b < 64" and "c < 64"
  shows "b64decode [b64chr a, b64chr b, b64chr c, CHR ''=''] =
           Some [char_of (a * 4 + b div 16), char_of ((b mod 16) * 16 + c div 4)]"
  using assms by (simp add: b64val_b64chr b64chr_not_pad)

lemma b64decode_group3:
  assumes "a < 64" and "b < 64" and "c < 64" and "d < 64" and "b64decode rest = Some bs"
  shows "b64decode (b64chr a # b64chr b # b64chr c # b64chr d # rest) =
           Some (char_of (a * 4 + b div 16) # char_of ((b mod 16) * 16 + c div 4) #
                 char_of ((c mod 4) * 64 + d) # bs)"
  using assms by (simp add: b64val_b64chr b64chr_not_pad)

lemma b64decode_b64encode: "b64decode (b64encode bs) = Some bs"
proof (induction bs rule: b64encode.induct)
  case 1
  show ?case by simp
next
  case (2 a)
  define x where "x = (of_char a :: nat)"
  have x: "x < 256" unfolding x_def by (rule of_char_less_256)
  have e: "b64encode [a] = [b64chr (x div 4), b64chr (x mod 4 * 16), CHR ''='', CHR ''='']"
    unfolding x_def by (simp only: b64encode.simps Let_def)
  have "b64decode (b64encode [a]) = Some [char_of (x div 4 * 4 + (x mod 4 * 16) div 16)]"
    unfolding e using sextet_bounds(1,2) [OF x x x] by (rule b64decode_group1)
  also have "x div 4 * 4 + (x mod 4 * 16) div 16 = x"
    by (rule sextet_back(1) [OF x x])
  also have "char_of x = a" unfolding x_def by simp
  finally show ?case .
next
  case (3 a b)
  define x where "x = (of_char a :: nat)"
  define y where "y = (of_char b :: nat)"
  have x: "x < 256" and y: "y < 256" unfolding x_def y_def by (rule of_char_less_256)+
  have e: "b64encode [a, b] =
      [b64chr (x div 4), b64chr (x mod 4 * 16 + y div 16), b64chr (y mod 16 * 4), CHR ''='']"
    unfolding x_def y_def by (simp only: b64encode.simps Let_def)
  have "b64decode (b64encode [a, b]) =
      Some [char_of (x div 4 * 4 + (x mod 4 * 16 + y div 16) div 16),
            char_of ((x mod 4 * 16 + y div 16) mod 16 * 16 + (y mod 16 * 4) div 4)]"
    unfolding e using sextet_bounds(1,3,4) [OF x y y] by (rule b64decode_group2)
  also have "x div 4 * 4 + (x mod 4 * 16 + y div 16) div 16 = x"
    by (rule sextet_back(2) [OF y y])
  also have "(x mod 4 * 16 + y div 16) mod 16 * 16 + (y mod 16 * 4) div 4 = y"
    by (rule sextet_back(3) [OF y y])
  also have "char_of x = a" unfolding x_def by simp
  also have "char_of y = b" unfolding y_def by simp
  finally show ?case .
next
  case (4 a b c rest)
  define x where "x = (of_char a :: nat)"
  define y where "y = (of_char b :: nat)"
  define z where "z = (of_char c :: nat)"
  have x: "x < 256" and y: "y < 256" and z: "z < 256"
    unfolding x_def y_def z_def by (rule of_char_less_256)+
  have e: "b64encode (a # b # c # rest) =
      b64chr (x div 4) # b64chr (x mod 4 * 16 + y div 16) #
      b64chr (y mod 16 * 4 + z div 64) # b64chr (z mod 64) # b64encode rest"
    unfolding x_def y_def z_def by (simp only: b64encode.simps Let_def append_Cons append_Nil)
  have "b64decode (b64encode (a # b # c # rest)) =
      Some (char_of (x div 4 * 4 + (x mod 4 * 16 + y div 16) div 16) #
            char_of ((x mod 4 * 16 + y div 16) mod 16 * 16 + (y mod 16 * 4 + z div 64) div 4) #
            char_of ((y mod 16 * 4 + z div 64) mod 4 * 64 + z mod 64) # rest)"
    unfolding e using sextet_bounds(1,3,5,6) [OF x y z] "4.IH" [OF refl refl refl]
    by (rule b64decode_group3)
  also have "x div 4 * 4 + (x mod 4 * 16 + y div 16) div 16 = x"
    by (rule sextet_back(2) [OF y z])
  also have "(x mod 4 * 16 + y div 16) mod 16 * 16 + (y mod 16 * 4 + z div 64) div 4 = y"
    by (rule sextet_back(4) [OF y z])
  also have "(y mod 16 * 4 + z div 64) mod 4 * 64 + z mod 64 = z"
    by (rule sextet_back(5) [OF y z])
  also have "char_of x = a" unfolding x_def by simp
  also have "char_of y = b" unfolding y_def by simp
  also have "char_of z = c" unfolding z_def by simp
  finally show ?case .
qed

lemma b64encode_ascii: "ascii (b64encode bs)"
proof (induction bs rule: b64encode.induct)
  case 1
  show ?case by (simp add: ascii_def)
next
  case (2 a)
  have x: "(of_char a :: nat) < 256" by (rule of_char_less_256)
  from sextet_bounds(1,2) [OF x x x]
  show ?case by (simp add: ascii_def Let_def b64chr_ascii)
next
  case (3 a b)
  have x: "(of_char a :: nat) < 256" and y: "(of_char b :: nat) < 256"
    by (rule of_char_less_256)+
  from sextet_bounds(1,3,4) [OF x y y]
  show ?case by (simp add: ascii_def Let_def b64chr_ascii)
next
  case (4 a b c rest)
  have x: "(of_char a :: nat) < 256" and y: "(of_char b :: nat) < 256"
    and z: "(of_char c :: nat) < 256"
    by (rule of_char_less_256)+
  from sextet_bounds(1,3,5,6) [OF x y z] 4 [OF refl refl refl]
  show ?case by (simp add: ascii_def Let_def b64chr_ascii)
qed

lemma encode_utf8_ascii: "ascii s \<Longrightarrow> encode_utf8 s = s"
  by (induction s) (simp_all add: ascii_def encode_utf8_def)

lemma decode_utf8_ascii: "ascii s \<Longrightarrow> decode_utf8 s = Inr s"
  by (induction s rule: decode_utf8.induct) (simp_all add: ascii_def Let_def)

subsection \<open>Integers in decimal\<close>

lemma is_digit_char_of: "d < 10 \<Longrightarrow> is_digit (char_of (48 + d :: nat))"
  by (simp add: is_digit_def)

lemma digit_val_char_of: "d < 10 \<Longrightarrow> digit_val (char_of (48 + d :: nat)) = d"
  by (simp add: digit_val_def)

lemma show_nat_digits: "list_all is_digit (show_nat n)"
proof (induction n rule: show_nat.induct)
  case (1 n)
  show ?case
  proof (cases "n < 10")
    case True
    then show ?thesis by (subst show_nat.simps) (simp add: is_digit_char_of)
  next
    case False
    with 1 have "list_all is_digit (show_nat (n div 10))" by simp
    moreover have "is_digit (char_of (48 + n mod 10))" by (rule is_digit_char_of) simp
    ultimately show ?thesis using False by (subst show_nat.simps) simp
  qed
qed

lemma show_nat_not_Nil: "show_nat n \<noteq> []"
  by (subst show_nat.simps) simp

lemma digits_to_nat_snoc: "digits_to_nat (ds @ [c]) = digits_to_nat ds * 10 + digit_val c"
  by (simp add: digits_to_nat_def)

lemma digits_to_nat_show_nat: "digits_to_nat (show_nat n) = n"
proof (induction n rule: show_nat.induct)
  case (1 n)
  show ?case
  proof (cases "n < 10")
    case True
    then show ?thesis
      by (subst show_nat.simps) (simp add: digits_to_nat_def digit_val_char_of)
  next
    case False
    with 1 have "digits_to_nat (show_nat (n div 10)) = n div 10" by simp
    moreover have "digit_val (char_of (48 + n mod 10)) = n mod 10"
      by (rule digit_val_char_of) simp
    ultimately show ?thesis using False
      by (subst show_nat.simps) (simp add: digits_to_nat_snoc)
  qed
qed

lemma hd_show_nat: "hd (show_nat n) = CHR ''0'' \<Longrightarrow> n = 0"
proof (induction n rule: show_nat.induct)
  case (1 n)
  show ?case
  proof (cases "n < 10")
    case True
    with "1.prems" have "char_of (48 + n) = CHR ''0''"
      by (subst (asm) show_nat.simps) simp
    then have "(of_char (char_of (48 + n)) :: nat) = of_char (CHR ''0'')" by simp
    with True show ?thesis by simp
  next
    case False
    with "1.prems" have "hd (show_nat (n div 10)) = CHR ''0''"
      by (subst (asm) show_nat.simps) (simp add: show_nat_not_Nil)
    with 1 False have "n div 10 = 0" by simp
    with False show ?thesis by simp
  qed
qed

lemma show_nat_no_leading_zero: "1 < length (show_nat n) \<Longrightarrow> hd (show_nat n) \<noteq> CHR ''0''"
proof
  assume l: "1 < length (show_nat n)" and h: "hd (show_nat n) = CHR ''0''"
  from h have "n = 0" by (rule hd_show_nat)
  with l show False by (subst (asm) show_nat.simps) simp
qed

lemma parse_number_show_nat:
  assumes "\<not> is_digit c" and "c \<noteq> CHR ''.''" and "c \<noteq> CHR ''e''" and "c \<noteq> CHR ''E''"
  shows "parse_number (show_nat n @ c # r) = Some (JInt (int n), c # r)"
proof -
  obtain d ds where s: "show_nat n = d # ds"
    using show_nat_not_Nil [of n] by (cases "show_nat n") auto
  from show_nat_digits [of n] s have "is_digit d" by simp
  then have d: "d \<noteq> CHR ''-''" by (auto simp: is_digit_def)
  have tw: "takeWhile is_digit (show_nat n @ c # r) = show_nat n"
    using show_nat_digits [of n] assms(1) by (simp add: takeWhile_append2 list_all_iff)
  have dw: "dropWhile is_digit (show_nat n @ c # r) = c # r"
    using show_nat_digits [of n] assms(1) by (simp add: dropWhile_append2 list_all_iff)
  have neg: "\<not> (show_nat n @ c # r \<noteq> [] \<and> hd (show_nat n @ c # r) = CHR ''-'')"
    using s d by simp
  show ?thesis
    unfolding parse_number_def Let_def
    using neg tw dw assms show_nat_not_Nil [of n] show_nat_no_leading_zero [of n]
    by (simp add: digits_to_nat_show_nat)
qed

lemma parse_number_show_int:
  assumes "\<not> is_digit c" and "c \<noteq> CHR ''.''" and "c \<noteq> CHR ''e''" and "c \<noteq> CHR ''E''"
  shows "parse_number (show_int i @ c # r) = Some (JInt i, c # r)"
proof (cases "i < 0")
  case False
  then show ?thesis
    using parse_number_show_nat [OF assms, of "nat i" r] by (simp add: show_int_def)
next
  case True
  have tw: "takeWhile is_digit (show_nat (nat (- i)) @ c # r) = show_nat (nat (- i))"
    using show_nat_digits [of "nat (- i)"] assms(1) by (simp add: takeWhile_append2 list_all_iff)
  have dw: "dropWhile is_digit (show_nat (nat (- i)) @ c # r) = c # r"
    using show_nat_digits [of "nat (- i)"] assms(1) by (simp add: dropWhile_append2 list_all_iff)
  show ?thesis
    unfolding parse_number_def Let_def show_int_def
    using True tw dw assms show_nat_not_Nil [of "nat (- i)"]
      show_nat_no_leading_zero [of "nat (- i)"]
    by (simp add: digits_to_nat_show_nat)
qed

subsection \<open>The text of an integer and of a key\<close>

lemma dumps_str_event: "dumps_str ''event'' = ''\"event\"''"
  and dumps_str_minute: "dumps_str ''minute-watched'' = ''\"minute-watched\"''"
  and dumps_str_properties: "dumps_str ''properties'' = ''\"properties\"''"
  and dumps_str_channel_id: "dumps_str ''channel_id'' = ''\"channel_id\"''"
  and dumps_str_broadcast_id: "dumps_str ''broadcast_id'' = ''\"broadcast_id\"''"
  and dumps_str_player: "dumps_str ''player'' = ''\"player\"''"
  and dumps_str_site: "dumps_str ''site'' = ''\"site\"''"
  and dumps_str_user_id: "dumps_str ''user_id'' = ''\"user_id\"''"
  by (simp_all add: dumps_str_def esc_char_def)

lemma is_digit_ascii: "is_digit c \<Longrightarrow> (of_char c :: nat) < 128"
  by (simp add: is_digit_def Let_def)

lemma is_digit_not_ws: "is_digit c \<Longrightarrow> \<not> is_ws c"
  by (auto simp: is_digit_def is_ws_def)

lemma show_int_chars: "list_all (\<lambda>c. is_digit c \<or> c = CHR ''-'') (show_int i)"
  using show_nat_digits [of "nat i"] show_nat_digits [of "nat (- i)"]
  by (simp add: show_int_def list_all_iff)

lemma show_int_ascii: "ascii (show_int i)"
  using show_int_chars [of i] by (auto simp: ascii_def list_all_iff dest: is_digit_ascii)

lemma show_int_no_ws: "list_all (\<lambda>c. \<not> is_ws c) (show_int i)"
proof -
  have "\<not> is_ws (CHR ''-'')" by (simp add: is_ws_def)
  with show_int_chars [of i] show ?thesis
    by (auto simp: list_all_iff dest: is_digit_not_ws)
qed

lemma ascii_append [simp]: "ascii (xs @ ys) \<longleftrightarrow> ascii xs \<and> ascii ys"
  by (simp add: ascii_def)

lemma show_int_Cons:
  obtains d ds where "show_int i = d # ds" and "is_digit d \<or> d = CHR ''-''"
proof -
  have "show_int i \<noteq> []"
    using show_nat_not_Nil by (simp add: show_int_def)
  then obtain d ds where s: "show_int i = d # ds"
    by (cases "show_int i") auto
  with show_int_chars [of i] have "is_digit d \<or> d = CHR ''-''" by simp
  with s show ?thesis by (rule that)
qed

lemma parse_value_show_int:
  assumes "\<not> is_digit c" and "c \<noteq> CHR ''.''" and "c \<noteq> CHR ''e''" and "c \<noteq> CHR ''E''"
  shows "parse_value (Suc n) (show_int i @ c # r) = Some (JInt i, c # r)"
proof -
  obtain d ds where s: "show_int i = d # ds" and d: "is_digit d \<or> d = CHR ''-''"
    by (rule show_int_Cons)
  from d have nws: "\<not> is_ws d"
    by (auto simp: is_digit_def is_ws_def)
  from d have ne: "d \<noteq> CHR ''[''" "d \<noteq> CHR ''{''" "d \<noteq> CHR 0x22"
    "d \<noteq> CHR ''n''" "d \<noteq> CHR ''t''" "d \<noteq> CHR ''f''"
    by (auto simp: is_digit_def)
  have "parse_value (Suc n) (d # ds @ c # r) = parse_number (d # ds @ c # r)"
    using nws ne by (simp add: skip_ws_def)
  also have "d # ds @ c # r = show_int i @ c # r"
    by (simp add: s)
  also have "parse_number (show_int i @ c # r) = Some (JInt i, c # r)"
    using assms by (rule parse_number_show_int)
  finally show ?thesis by (simp add: s)
qed

lemma skip_ws_simps:
  "skip_ws [] = []"
  "skip_ws (CHR '','' # r) = CHR '','' # r"
  "skip_ws (CHR '':'' # r) = CHR '':'' # r"
  "skip_ws (CHR ''}'' # r) = CHR ''}'' # r"
  "skip_ws (CHR '']'' # r) = CHR '']'' # r"
  "skip_ws (CHR ''{'' # r) = CHR ''{'' # r"
  "skip_ws (CHR ''['' # r) = CHR ''['' # r"
  "skip_ws (CHR 0x22 # r) = CHR 0x22 # r"
  by (simp_all add: skip_ws_def is_ws_def)

subsection \<open>Strings, escaped and read back\<close>

lemma char_eq_of_char: "(c = d) = ((of_char c :: nat) = of_char d)"
  by (auto dest: injD [OF inj_of_char])

lemma hex_digit_cases:
  assumes "a < 16"
  shows "hex_val (hex_digit a) = Some a" and "(of_char (hex_digit a) :: nat) < 128"
    and "hex_digit a \<noteq> CHR 0x22" and "hex_digit a \<noteq> CHR 0x5C"
  using assms by (auto simp add: hex_digit_def hex_val_def char_eq_of_char)

lemma hex_val_zero: "hex_val (CHR ''0'') = Some 0"
  by (simp add: hex_val_def)

lemma esc_char_cases:
  obtains (quote) "c = CHR 0x22" "esc_char c = [CHR 0x5C, CHR 0x22]"
  | (backslash) "c = CHR 0x5C" "esc_char c = [CHR 0x5C, CHR 0x5C]"
  | (newline) "c = CHR 0x0A" "esc_char c = [CHR 0x5C, CHR ''n'']"
  | (return) "c = CHR 0x0D" "esc_char c = [CHR 0x5C, CHR ''r'']"
  | (tab) "c = CHR 0x09" "esc_char c = [CHR 0x5C, CHR ''t'']"
  | (backspace) "c = CHR 0x08" "esc_char c = [CHR 0x5C, CHR ''b'']"
  | (formfeed) "c = CHR 0x0C" "esc_char c = [CHR 0x5C, CHR ''f'']"
  | (plain) "32 \<le> (of_char c :: nat)" "(of_char c :: nat) \<le> 126" "c \<noteq> CHR 0x22" "c \<noteq> CHR 0x5C"
      "esc_char c = [c]"
  | (hex) "esc_char c = [CHR 0x5C, CHR ''u'', CHR ''0'', CHR ''0'',
        hex_digit (of_char c div 16), hex_digit (of_char c mod 16)]"
proof -
  define n where "n = (of_char c :: nat)"
  consider "n = 34" | "n = 92" | "n = 10" | "n = 13" | "n = 9" | "n = 8" | "n = 12"
    | "32 \<le> n \<and> n \<le> 126 \<and> n \<noteq> 34 \<and> n \<noteq> 92"
    | "n \<noteq> 34 \<and> n \<noteq> 92 \<and> n \<noteq> 10 \<and> n \<noteq> 13 \<and> n \<noteq> 9 \<and> n \<noteq> 8 \<and> n \<noteq> 12 \<and> \<not> (32 \<le> n \<and> n \<le> 126)"
    by linarith
  then show thesis
  proof cases
    case 1
    then have "c = CHR 0x22" by (simp add: char_eq_of_char n_def)
    then show ?thesis using quote by (simp add: esc_char_def)
  next
    case 2
    then have "c = CHR 0x5C" by (simp add: char_eq_of_char n_def)
    then show ?thesis using backslash by (simp add: esc_char_def)
  next
    case 3
    then have "c = CHR 0x0A" by (simp add: char_eq_of_char n_def)
    then show ?thesis using newline by (simp add: esc_char_def)
  next
    case 4
    then have "c = CHR 0x0D" by (simp add: char_eq_of_char n_def)
    then show ?thesis using return by (simp add: esc_char_def)
  next
    case 5
    then have "c = CHR 0x09" by (simp add: char_eq_of_char n_def)
    then show ?thesis using tab by (simp add: esc_char_def)
  next
    case 6
    then have "c = CHR 0x08" by (simp add: char_eq_of_char n_def)
    then show ?thesis using backspace by (simp add: esc_char_def)
  next
    case 7
    then have "c = CHR 0x0C" by (simp add: char_eq_of_char n_def)
    then show ?thesis using formfeed by (simp add: esc_char_def)
  next
    case 8
    then have "c \<noteq> CHR 0x22" "c \<noteq> CHR 0x5C" by (simp_all add: char_eq_of_char n_def)
    moreover from 8 have "esc_char c = [c]"
      by (simp add: esc_char_def n_def [symmetric] Let_def)
    ultimately show ?thesis using 8 plain by (simp add: n_def)
  next
    case 9
    then have "esc_char c = [CHR 0x5C, CHR ''u'', CHR ''0'', CHR ''0'',
        hex_digit (of_char c div 16), hex_digit (of_char c mod 16)]"
      by (simp add: esc_char_def n_def [symmetric] Let_def)
    then show ?thesis by (rule hex)
  qed
qed

lemma of_char_div_16: "(of_char c :: nat) div 16 < 16" "(of_char c :: nat) mod 16 < 16"
proof -
  have "(of_char c :: nat) < 16 * 16" using of_char_less_256 [of c] by simp
  then show "(of_char c :: nat) div 16 < 16" by (simp only: less_mult_imp_div_less)
  show "(of_char c :: nat) mod 16 < 16" by simp
qed

lemma parse_chars_esc_char:
  assumes "r \<noteq> []"
  shows "parse_chars acc (esc_char c @ r) = parse_chars (acc @ [c]) r"
proof -
  from assms obtain d ds where r: "r = d # ds" by (cases r) auto
  show ?thesis
  proof (cases c rule: esc_char_cases)
    case plain
    then show ?thesis by (simp add: r)
  next
    case hex
    have "char_of ((of_char c :: nat) div 16 * 16 + of_char c mod 16) = c"
      by simp
    with hex show ?thesis
      by (simp add: hex_val_zero hex_digit_cases(1) of_char_div_16)
  qed simp_all
qed

lemma parse_chars_quote: "parse_chars acc (CHR 0x22 # r) = Some (acc, r)"
  by (cases r) simp_all

lemma parse_chars_escaped:
  "parse_chars acc (concat (map esc_char s) @ CHR 0x22 # r) = Some (acc @ s, r)"
proof (induction s arbitrary: acc)
  case Nil
  show ?case by (simp add: parse_chars_quote)
next
  case (Cons c s)
  have "parse_chars acc (esc_char c @ (concat (map esc_char s) @ CHR 0x22 # r)) =
      parse_chars (acc @ [c]) (concat (map esc_char s) @ CHR 0x22 # r)"
    by (rule parse_chars_esc_char) simp
  with Cons [of "acc @ [c]"] show ?case by simp
qed

lemma esc_char_ascii: "ascii (esc_char c)"
  by (cases c rule: esc_char_cases)
    (simp_all add: ascii_def hex_digit_cases(2) of_char_div_16)

lemma bare_ws_esc_char: "bare_ws Inside (esc_char c @ r) = bare_ws Inside r"
  by (cases c rule: esc_char_cases)
    (simp_all add: hex_digit_cases(3,4) of_char_div_16)

lemma bare_ws_escaped:
  "bare_ws Inside (concat (map esc_char s) @ r) = bare_ws Inside r"
  by (induction s) (simp_all add: bare_ws_esc_char)

lemma dumps_str_ascii: "ascii (dumps_str s)"
proof -
  have "ascii (concat (map esc_char s))"
    by (induction s) (simp_all add: esc_char_ascii, simp add: ascii_def)
  then show ?thesis by (simp add: dumps_str_def, simp add: ascii_def)
qed

lemma bare_ws_dumps_str: "bare_ws Outside (dumps_str s @ r) = bare_ws Outside r"
  by (simp add: dumps_str_def bare_ws_escaped)

lemma parse_value_dumps_str:
  "parse_value (Suc n) (dumps_str s @ r) = Some (JStr s, r)"
  by (simp add: dumps_str_def skip_ws_simps parse_chars_escaped)

subsection \<open>Reading back what \<^verbatim>\<open>json.dumps\<close> wrote\<close>

lemma skip_ws_Cons: "\<not> is_ws c \<Longrightarrow> skip_ws (c # cs) = c # cs"
  by (simp add: skip_ws_def)

lemma json_dumps_hd:
  obtains c cs where "json_dumps v = c # cs" and "\<not> is_ws c" and "c \<noteq> CHR '']''"
    and "c \<noteq> CHR ''}''"
proof (cases v)
  case (JInt i)
  obtain d ds where "show_int i = d # ds" and "is_digit d \<or> d = CHR ''-''"
    by (rule show_int_Cons)
  then have "json_dumps v = d # ds" "\<not> is_ws d" "d \<noteq> CHR '']''" "d \<noteq> CHR ''}''"
    using JInt by (auto simp: is_digit_def is_ws_def Let_def)
  then show ?thesis by (rule that)
next
  case (JBool b)
  with that show ?thesis by (cases b) (simp_all add: is_ws_def)
qed (simp_all add: is_ws_def dumps_str_def)

lemma dumps_list_hd:
  assumes "xs \<noteq> []"
  obtains c cs where "dumps_list xs = c # cs" and "\<not> is_ws c" and "c \<noteq> CHR '']''"
proof -
  from assms obtain x ys where xs: "xs = x # ys" by (cases xs) auto
  obtain c cs where "json_dumps x = c # cs" "\<not> is_ws c" "c \<noteq> CHR '']''"
    by (rule json_dumps_hd [of x])
  with xs that show ?thesis by (cases ys) simp_all
qed

lemma dumps_items_hd:
  assumes "kvs \<noteq> []"
  obtains cs where "dumps_items kvs = CHR 0x22 # cs"
proof -
  from assms obtain k v ys where "kvs = (k, v) # ys" by (cases kvs) auto
  with that show ?thesis by (cases ys) (simp_all add: dumps_str_def)
qed

lemma parse_value_null: "parse_value (Suc n) (''null'' @ r) = Some (JNull, r)"
  by (simp add: skip_ws_def is_ws_def)

lemma parse_value_true: "parse_value (Suc n) (''true'' @ r) = Some (JBool True, r)"
  by (simp add: skip_ws_def is_ws_def)

lemma parse_value_false: "parse_value (Suc n) (''false'' @ r) = Some (JBool False, r)"
  by (simp add: skip_ws_def is_ws_def)

lemma parse_value_int_delim:
  assumes "c = CHR '','' \<or> c = CHR '']'' \<or> c = CHR ''}''"
  shows "parse_value (Suc n) (show_int i @ c # r) = Some (JInt i, c # r)"
  using assms by (intro parse_value_show_int) (auto simp: is_digit_def)

lemma parse_value_empty_array: "parse_value (Suc n) (''[]'' @ r) = Some (JArr [], r)"
  by (simp add: skip_ws_simps)

lemma parse_value_empty_object: "parse_value (Suc n) (''{}'' @ r) = Some (JObj [], r)"
  by (simp add: skip_ws_simps)

lemma parse_value_elements:
  assumes "\<not> is_ws c" and "c \<noteq> CHR '']''" and "parse_elements n (c # cs) = Some (ys, r)"
  shows "parse_value (Suc n) (CHR ''['' # c # cs) = Some (JArr ys, r)"
  using assms by (simp add: skip_ws_simps skip_ws_Cons)

lemma parse_value_members:
  assumes "parse_members n (CHR 0x22 # cs) = Some (ys, r)"
  shows "parse_value (Suc n) (CHR ''{'' # CHR 0x22 # cs) = Some (JObj (dict_of ys), r)"
  using assms by (simp add: skip_ws_simps)

lemma parse_elements_last:
  assumes "parse_value n s = Some (y, CHR '']'' # r)"
  shows "parse_elements (Suc n) s = Some ([y], r)"
  using assms by (simp add: skip_ws_simps)

lemma parse_elements_more:
  assumes "parse_value n s = Some (y, CHR '','' # t)" and "parse_elements n t = Some (ys, r)"
  shows "parse_elements (Suc n) s = Some (y # ys, r)"
  using assms by (simp add: skip_ws_simps)

lemma parse_members_last:
  assumes "parse_value n t = Some (y, CHR ''}'' # r)"
  shows "parse_members (Suc n) (dumps_str k @ CHR '':'' # t) = Some ([(k, y)], r)"
  using assms by (simp add: dumps_str_def skip_ws_simps parse_chars_escaped)

lemma parse_members_more:
  assumes "parse_value n t = Some (y, CHR '','' # t')" and "parse_members n t' = Some (ys, r)"
  shows "parse_members (Suc n) (dumps_str k @ CHR '':'' # t) = Some ((k, y) # ys, r)"
  using assms by (simp add: dumps_str_def skip_ws_simps parse_chars_escaped)

lemma parse_dumps_value:
  "\<forall>n c r. need v \<le> n \<longrightarrow> (c = CHR '','' \<or> c = CHR '']'' \<or> c = CHR ''}'') \<longrightarrow>
     parse_value n (json_dumps v @ c # r) = Some (dict_norm v, c # r)"
  and parse_dumps_list: "\<forall>n r. xs \<noteq> [] \<longrightarrow> need_list xs \<le> n \<longrightarrow>
     parse_elements n (dumps_list xs @ CHR '']'' # r) = Some (dict_norm_list xs, r)"
  and parse_dumps_items: "\<forall>n r. kvs \<noteq> [] \<longrightarrow> need_items kvs \<le> n \<longrightarrow>
     parse_members n (dumps_items kvs @ CHR ''}'' # r) = Some (dict_norm_items kvs, r)"
proof (induction v and xs and kvs rule: json_dumps_dumps_list_dumps_items.induct)
  case 1
  show ?case
  proof (intro allI impI)
    fix n :: nat and c r
    assume "need JNull \<le> n"
    then obtain m where "n = Suc m" by (cases n) auto
    then show "parse_value n (json_dumps JNull @ c # r) = Some (dict_norm JNull, c # r)"
      using parse_value_null [of m "c # r"] by (simp del: parse_value.simps)
  qed
next
  case (2 b)
  show ?case
  proof (intro allI impI)
    fix n :: nat and c r
    assume "need (JBool b) \<le> n"
    then obtain m where "n = Suc m" by (cases n) auto
    then show "parse_value n (json_dumps (JBool b) @ c # r) = Some (dict_norm (JBool b), c # r)"
      using parse_value_true [of m "c # r"] parse_value_false [of m "c # r"]
      by (cases b) (simp_all del: parse_value.simps)
  qed
next
  case (3 i)
  show ?case
  proof (intro allI impI)
    fix n :: nat and c r
    assume "need (JInt i) \<le> n" and c: "c = CHR '','' \<or> c = CHR '']'' \<or> c = CHR ''}''"
    then obtain m where "n = Suc m" by (cases n) auto
    then show "parse_value n (json_dumps (JInt i) @ c # r) = Some (dict_norm (JInt i), c # r)"
      using parse_value_int_delim [OF c, of m i r] by (simp del: parse_value.simps)
  qed
next
  case (4 s)
  show ?case
  proof (intro allI impI)
    fix n :: nat and c r
    assume "need (JStr s) \<le> n"
    then obtain m where "n = Suc m" by (cases n) auto
    then show "parse_value n (json_dumps (JStr s) @ c # r) = Some (dict_norm (JStr s), c # r)"
      using parse_value_dumps_str [of m s "c # r"] by (simp del: parse_value.simps)
  qed
next
  case (5 xs)
  show ?case
  proof (intro allI impI)
    fix n :: nat and c r
    assume "need (JArr xs) \<le> n"
    then obtain m where n: "n = Suc m" and m: "need_list xs \<le> m" by (cases n) auto
    show "parse_value n (json_dumps (JArr xs) @ c # r) = Some (dict_norm (JArr xs), c # r)"
    proof (cases "xs = []")
      case True
      then show ?thesis
        using parse_value_empty_array [of m "c # r"] n by (simp del: parse_value.simps)
    next
      case False
      with 5 m have e: "parse_elements m (dumps_list xs @ CHR '']'' # c # r) =
          Some (dict_norm_list xs, c # r)"
        by blast
      from False obtain d ds where d: "dumps_list xs = d # ds" "\<not> is_ws d" "d \<noteq> CHR '']''"
        by (rule dumps_list_hd)
      from e d(1) have "parse_elements m (d # ds @ CHR '']'' # c # r) =
          Some (dict_norm_list xs, c # r)"
        by simp
      from parse_value_elements [OF d(2,3) this] show ?thesis
        by (simp add: n d(1) del: parse_value.simps)
    qed
  qed
next
  case (6 kvs)
  show ?case
  proof (intro allI impI)
    fix n :: nat and c r
    assume "need (JObj kvs) \<le> n"
    then obtain m where n: "n = Suc m" and m: "need_items kvs \<le> m" by (cases n) auto
    show "parse_value n (json_dumps (JObj kvs) @ c # r) = Some (dict_norm (JObj kvs), c # r)"
    proof (cases "kvs = []")
      case True
      then show ?thesis
        using parse_value_empty_object [of m "c # r"] n
        by (simp add: dict_of_def del: parse_value.simps)
    next
      case False
      with 6 m have e: "parse_members m (dumps_items kvs @ CHR ''}'' # c # r) =
          Some (dict_norm_items kvs, c # r)"
        by blast
      from False obtain ds where d: "dumps_items kvs = CHR 0x22 # ds"
        by (rule dumps_items_hd)
      from e d have "parse_members m (CHR 0x22 # ds @ CHR ''}'' # c # r) =
          Some (dict_norm_items kvs, c # r)"
        by simp
      from parse_value_members [OF this] show ?thesis
        by (simp add: n d del: parse_value.simps)
    qed
  qed
next
  case 7
  show ?case by simp
next
  case (8 x)
  show ?case
  proof (intro allI impI)
    fix n :: nat and r
    assume "need_list [x] \<le> n"
    then obtain m where n: "n = Suc m" and m: "need x \<le> m" by (cases n) auto
    with 8 have "parse_value m (json_dumps x @ CHR '']'' # r) = Some (dict_norm x, CHR '']'' # r)"
      by blast
    from parse_elements_last [OF this]
    show "parse_elements n (dumps_list [x] @ CHR '']'' # r) = Some (dict_norm_list [x], r)"
      by (simp add: n del: parse_elements.simps)
  qed
next
  case (9 x y ys)
  show ?case
  proof (intro allI impI)
    fix n :: nat and r
    assume "need_list (x # y # ys) \<le> n"
    then obtain m where n: "n = Suc m" and m: "need x \<le> m" "need_list (y # ys) \<le> m"
      by (cases n) auto
    let ?t = "dumps_list (y # ys) @ CHR '']'' # r"
    from 9(1) m(1) have "parse_value m (json_dumps x @ CHR '','' # ?t) =
        Some (dict_norm x, CHR '','' # ?t)"
      by blast
    moreover from 9(2) m(2) have "parse_elements m ?t = Some (dict_norm_list (y # ys), r)"
      by blast
    ultimately have "parse_elements (Suc m) (json_dumps x @ CHR '','' # ?t) =
        Some (dict_norm x # dict_norm_list (y # ys), r)"
      by (rule parse_elements_more)
    then show "parse_elements n (dumps_list (x # y # ys) @ CHR '']'' # r) =
        Some (dict_norm_list (x # y # ys), r)"
      by (simp add: n del: parse_elements.simps)
  qed
next
  case 10
  show ?case by simp
next
  case (11 k v)
  show ?case
  proof (intro allI impI)
    fix n :: nat and r
    assume "need_items [(k, v)] \<le> n"
    then obtain m where n: "n = Suc m" and m: "need v \<le> m" by (cases n) auto
    with 11 have "parse_value m (json_dumps v @ CHR ''}'' # r) = Some (dict_norm v, CHR ''}'' # r)"
      by blast
    from parse_members_last [OF this, of k]
    show "parse_members n (dumps_items [(k, v)] @ CHR ''}'' # r) =
        Some (dict_norm_items [(k, v)], r)"
      by (simp add: n del: parse_members.simps)
  qed
next
  case (12 k v kv kvs)
  show ?case
  proof (intro allI impI)
    fix n :: nat and r
    assume "need_items ((k, v) # kv # kvs) \<le> n"
    then obtain m where n: "n = Suc m" and m: "need v \<le> m" "need_items (kv # kvs) \<le> m"
      by (cases n) auto
    let ?t = "dumps_items (kv # kvs) @ CHR ''}'' # r"
    from 12(1) m(1) have "parse_value m (json_dumps v @ CHR '','' # ?t) =
        Some (dict_norm v, CHR '','' # ?t)"
      by blast
    moreover from 12(2) m(2) have "parse_members m ?t = Some (dict_norm_items (kv # kvs), r)"
      by blast
    ultimately have "parse_members (Suc m) (dumps_str k @ CHR '':'' # json_dumps v @ CHR '','' # ?t) =
        Some ((k, dict_norm v) # dict_norm_items (kv # kvs), r)"
      by (rule parse_members_more)
    then show "parse_members n (dumps_items ((k, v) # kv # kvs) @ CHR ''}'' # r) =
        Some (dict_norm_items ((k, v) # kv # kvs), r)"
      by (simp add: n del: parse_members.simps)
  qed
qed

lemma need_le_length:
  "need v \<le> length (json_dumps v)"
  "need_list xs \<le> Suc (length (dumps_list xs))"
  "need_items kvs \<le> Suc (length (dumps_items kvs))"
proof (induction v and xs and kvs rule: json_dumps_dumps_list_dumps_items.induct)
  case (3 i)
  obtain d ds where "show_int i = d # ds" by (rule show_int_Cons)
  then show ?case by simp
next
  case (9 x y ys)
  obtain c cs where "json_dumps x = c # cs" by (rule json_dumps_hd)
  with 9 show ?case by simp
next
  case (12 k v kv kvs)
  with 12 show ?case by (simp add: dumps_str_def)
qed (simp_all add: dumps_str_def)

lemma json_loads_dumps_array:
  "json_loads (json_dumps (JArr xs)) = Some (JArr (dict_norm_list xs))"
proof (cases "xs = []")
  case True
  then show ?thesis
    by (simp add: json_loads_def skip_ws_simps eval_nat_numeral)
next
  case False
  let ?s = "json_dumps (JArr xs)"
  define m where "m = Suc (2 * length ?s)"
  have "need_list xs \<le> m"
    using need_le_length(2) [of xs] by (simp add: m_def)
  with False parse_dumps_list [of xs]
  have e: "parse_elements m (dumps_list xs @ CHR '']'' # []) = Some (dict_norm_list xs, [])"
    by blast
  from False obtain d ds where d: "dumps_list xs = d # ds" "\<not> is_ws d" "d \<noteq> CHR '']''"
    by (rule dumps_list_hd)
  from e d(1) have "parse_elements m (d # ds @ [CHR '']'']) = Some (dict_norm_list xs, [])"
    by simp
  from parse_value_elements [OF d(2,3) this]
  have "parse_value (Suc m) ?s = Some (JArr (dict_norm_list xs), [])"
    by (simp add: d(1) del: parse_value.simps)
  moreover have "2 * length ?s + 2 = Suc m" by (simp add: m_def)
  ultimately show ?thesis
    by (simp add: json_loads_def skip_ws_simps del: parse_value.simps json_dumps.simps)
qed

subsection \<open>Dictionaries without a repeated key\<close>

lemma dict_set_fresh: "k \<notin> fst ` set d \<Longrightarrow> dict_set d k v = d @ [(k, v)]"
  by (induction d) auto

lemma dict_fold_distinct:
  "distinct (map fst (d @ kvs)) \<Longrightarrow>
     foldl (\<lambda>d kv. dict_set d (fst kv) (snd kv)) d kvs = d @ kvs"
proof (induction kvs arbitrary: d)
  case Nil
  show ?case by simp
next
  case (Cons kv kvs)
  from Cons.prems have f: "fst kv \<notin> fst ` set d" by auto
  from Cons.prems have "distinct (map fst ((d @ [kv]) @ kvs))" by simp
  from Cons.IH [OF this] show ?case
    by (simp add: dict_set_fresh [OF f])
qed

lemma dict_of_distinct: "distinct (map fst kvs) \<Longrightarrow> dict_of kvs = kvs"
  using dict_fold_distinct [of "[]" kvs] by (simp add: dict_of_def)

lemma dict_norm_distinct:
  "distinct_keys v \<longrightarrow> dict_norm v = v"
  "distinct_keys_list xs \<longrightarrow> dict_norm_list xs = xs"
  "distinct_keys_items kvs \<longrightarrow> dict_norm_items kvs = kvs"
  by (induction v and xs and kvs rule: dict_norm_dict_norm_list_dict_norm_items.induct)
    (simp_all add: dict_of_distinct)

subsection \<open>The characters of the text\<close>

lemma json_dumps_ascii:
  "ascii (json_dumps v)" "ascii (dumps_list xs)" "ascii (dumps_items kvs)"
proof (induction v and xs and kvs rule: json_dumps_dumps_list_dumps_items.induct)
  case (3 i)
  show ?case by (simp add: show_int_ascii)
qed (simp_all add: dumps_str_ascii, simp_all add: ascii_def)

lemma bare_ws_plain:
  assumes "list_all (\<lambda>c. c \<noteq> CHR 0x22 \<and> \<not> is_ws c) s"
  shows "bare_ws Outside (s @ r) = bare_ws Outside r"
  using assms by (induction s) simp_all

lemma bare_ws_show_int: "bare_ws Outside (show_int i @ r) = bare_ws Outside r"
proof (rule bare_ws_plain)
  show "list_all (\<lambda>c. c \<noteq> CHR 0x22 \<and> \<not> is_ws c) (show_int i)"
    using show_int_chars [of i] by (auto simp: list_all_iff is_digit_def is_ws_def)
qed

lemma bare_ws_json_dumps:
  "\<forall>r. bare_ws Outside (json_dumps v @ r) = bare_ws Outside r"
  "\<forall>r. bare_ws Outside (dumps_list xs @ r) = bare_ws Outside r"
  "\<forall>r. bare_ws Outside (dumps_items kvs @ r) = bare_ws Outside r"
proof (induction v and xs and kvs rule: json_dumps_dumps_list_dumps_items.induct)
  case (3 i)
  show ?case by (simp add: bare_ws_show_int)
qed (simp_all add: bare_ws_dumps_str is_ws_def)

subsection \<open>The payload\<close>

lemma json_dumps_expected: "json_dumps (expected_payload c b u) = expected_text c b u"
  by (simp add: expected_payload_def expected_text_def dumps_str_event dumps_str_minute
      dumps_str_properties dumps_str_channel_id dumps_str_broadcast_id dumps_str_player
      dumps_str_site dumps_str_user_id)

lemma dict_norm_expected:
  "dict_norm (expected_payload c b u) = expected_payload c (dict_norm b) u"
  by (simp add: expected_payload_def dict_of_def)

lemma json_loads_expected:
  "json_loads (expected_text c b u) = Some (expected_payload c (dict_norm b) u)"
proof -
  obtain xs where xs: "expected_payload c b u = JArr xs"
    by (simp add: expected_payload_def)
  have "json_loads (json_dumps (JArr xs)) = Some (dict_norm (JArr xs))"
    by (simp only: json_loads_dumps_array dict_norm.simps)
  then show ?thesis
    by (simp only: xs [symmetric] json_dumps_expected dict_norm_expected)
qed

lemma expected_text_ascii: "ascii (expected_text c b u)"
  using json_dumps_ascii(1) [of "expected_payload c b u"] by (simp only: json_dumps_expected)

lemma expected_text_bare: "\<not> bare_ws Outside (expected_text c b u)"
proof -
  have "bare_ws Outside (json_dumps (expected_payload c b u) @ []) = bare_ws Outside []"
    using bare_ws_json_dumps(1) [of "expected_payload c b u"] by blast
  then show ?thesis by (simp add: json_dumps_expected del: json_dumps.simps)
qed

lemma expected_text_ws:
  "list_all (\<lambda>c. \<not> is_ws c) (expected_text c b u) =
     list_all (\<lambda>c. \<not> is_ws c) (json_dumps b)"
proof -
  have "list_all (\<lambda>c. \<not> is_ws c) ''[{\"event\":\"minute-watched\",\"properties\":{\"channel_id\":''"
    "list_all (\<lambda>c. \<not> is_ws c) '',\"broadcast_id\":''"
    "list_all (\<lambda>c. \<not> is_ws c) '',\"player\":\"site\",\"user_id\":''"
    "list_all (\<lambda>c. \<not> is_ws c) ''}}]''"
    by (simp_all add: is_ws_def)
  then show ?thesis
    unfolding expected_text_def list_all_append by (simp only: show_int_no_ws simp_thms)
qed

lemma encode_payload_text:
  assumes "stream ch = Some st"
  shows "encode_payload u ch =
           Inr [(''data'', b64encode (expected_text (id_chan ch) (broadcast_id st) u))]"
proof -
  let ?t = "expected_text (id_chan ch) (broadcast_id st) u"
  have "json_dumps (JArr [JObj [(''event'', JStr ''minute-watched''),
                            (''properties'',
                             JObj [(''channel_id'', JInt (id_chan ch)),
                                   (''broadcast_id'', broadcast_id st),
                                   (''player'', JStr ''site''),
                                   (''user_id'', JInt u)])]]) = ?t"
    using json_dumps_expected [of "id_chan ch" "broadcast_id st" u]
    by (simp only: expected_payload_def)
  moreover have "encode_utf8 ?t = ?t"
    by (rule encode_utf8_ascii [OF expected_text_ascii])
  moreover have "decode_utf8 (b64encode ?t) = Inr (b64encode ?t)"
    by (rule decode_utf8_ascii [OF b64encode_ascii])
  ultimately show ?thesis
    using assms by (simp add: encode_payload_def del: json_dumps.simps)
qed

text \<open>
  C7. For every online channel, whatever value the \<^verbatim>\<open>broadcast_id\<close> of its stream holds
  (the integer that \<^verbatim>\<open>Stream.__init__\<close> stores, the string that \<^verbatim>\<open>Stream.from_directory\<close>
  stores, or any other), the payload is the one-key form \<open>data\<close>; decoding its value from
  base64 and then from UTF-8 gives the text that \<^verbatim>\<open>json.dumps\<close> produced, which is the
  expected text; no whitespace character of it stands outside a string, and it has a
  whitespace character at all only where the text of the id itself has one, so none for an
  integer id; \<^verbatim>\<open>json.loads\<close> reads it back as the expected one-element list, with the id
  as a dictionary would hold it, which is the id itself when no dictionary in it repeats a
  key.
\<close>

theorem encode_payload_decodes:
  assumes "stream ch = Some st"
  shows "\<exists>e bytes js. encode_payload u ch = Inr [(''data'', e)] \<and>
           b64decode e = Some bytes \<and> decode_utf8 bytes = Inr js \<and>
           js = json_dumps (expected_payload (id_chan ch) (broadcast_id st) u) \<and>
           js = expected_text (id_chan ch) (broadcast_id st) u \<and>
           \<not> bare_ws Outside js \<and>
           list_all (\<lambda>c. \<not> is_ws c) js =
             list_all (\<lambda>c. \<not> is_ws c) (json_dumps (broadcast_id st)) \<and>
           (\<forall>b. broadcast_id st = JInt b \<longrightarrow> list_all (\<lambda>c. \<not> is_ws c) js) \<and>
           json_loads js =
             Some (expected_payload (id_chan ch) (dict_norm (broadcast_id st)) u) \<and>
           (distinct_keys (broadcast_id st) \<longrightarrow>
              json_loads js = Some (expected_payload (id_chan ch) (broadcast_id st) u))"
proof -
  let ?t = "expected_text (id_chan ch) (broadcast_id st) u"
  have "encode_payload u ch = Inr [(''data'', b64encode ?t)]"
    using assms by (rule encode_payload_text)
  moreover have "b64decode (b64encode ?t) = Some ?t"
    by (rule b64decode_b64encode)
  moreover have "decode_utf8 ?t = Inr ?t"
    by (rule decode_utf8_ascii [OF expected_text_ascii])
  moreover have "?t = json_dumps (expected_payload (id_chan ch) (broadcast_id st) u)"
    by (simp only: json_dumps_expected)
  moreover have "\<not> bare_ws Outside ?t"
    by (rule expected_text_bare)
  moreover have w: "list_all (\<lambda>c. \<not> is_ws c) ?t =
      list_all (\<lambda>c. \<not> is_ws c) (json_dumps (broadcast_id st))"
    by (rule expected_text_ws)
  moreover have "\<forall>b. broadcast_id st = JInt b \<longrightarrow> list_all (\<lambda>c. \<not> is_ws c) ?t"
    by (simp add: expected_text_ws show_int_no_ws)
  moreover have l: "json_loads ?t =
      Some (expected_payload (id_chan ch) (dict_norm (broadcast_id st)) u)"
    by (rule json_loads_expected)
  moreover have "distinct_keys (broadcast_id st) \<longrightarrow>
      json_loads ?t = Some (expected_payload (id_chan ch) (broadcast_id st) u)"
    using l dict_norm_distinct(1) [of "broadcast_id st"] by simp
  ultimately show ?thesis by blast
qed

lemma show_int_examples: "show_int 123 = ''123''" "show_int 789 = ''789''"
  by code_simp+

lemma json_dumps_examples:
  "json_dumps (JInt 456) = ''456''"
  "json_dumps (JStr ''456'') = ''\"456\"''"
  "json_dumps (JStr ''say \"hi\"'') = ''\"say '' @ [CHR 0x5C] @ ''\"hi'' @ [CHR 0x5C] @ ''\"\"''"
  by code_simp+

lemma b64encode_examples:
  "b64encode ''[{\"event\":\"minute-watched\",\"properties\":{\"channel_id\":123,\"broadcast_id\":456,\"player\":\"site\",\"user_id\":789}}]'' =
     ''W3siZXZlbnQiOiJtaW51dGUtd2F0Y2hlZCIsInByb3BlcnRpZXMiOnsiY2hhbm5lbF9pZCI6MTIzLCJicm9hZGNhc3RfaWQiOjQ1NiwicGxheWVyIjoic2l0ZSIsInVzZXJfaWQiOjc4OX19XQ==''"
  "b64encode ''[{\"event\":\"minute-watched\",\"properties\":{\"channel_id\":123,\"broadcast_id\":\"456\",\"player\":\"site\",\"user_id\":789}}]'' =
     ''W3siZXZlbnQiOiJtaW51dGUtd2F0Y2hlZCIsInByb3BlcnRpZXMiOnsiY2hhbm5lbF9pZCI6MTIzLCJicm9hZGNhc3RfaWQiOiI0NTYiLCJwbGF5ZXIiOiJzaXRlIiwidXNlcl9pZCI6Nzg5fX1d''"
  "b64encode (''[{\"event\":\"minute-watched\",\"properties\":{\"channel_id\":123,\"broadcast_id\":\"say '' @ [CHR 0x5C] @ ''\"hi'' @ [CHR 0x5C] @ ''\"\",\"player\":\"site\",\"user_id\":789}}]'') =
     ''W3siZXZlbnQiOiJtaW51dGUtd2F0Y2hlZCIsInByb3BlcnRpZXMiOnsiY2hhbm5lbF9pZCI6MTIzLCJicm9hZGNhc3RfaWQiOiJzYXkgXCJoaVwiIiwicGxheWVyIjoic2l0ZSIsInVzZXJfaWQiOjc4OX19XQ==''"
  by code_simp+

lemma expected_text_examples:
  "expected_text 123 (JInt 456) 789 =
     ''[{\"event\":\"minute-watched\",\"properties\":{\"channel_id\":123,\"broadcast_id\":456,\"player\":\"site\",\"user_id\":789}}]''"
  "expected_text 123 (JStr ''456'') 789 =
     ''[{\"event\":\"minute-watched\",\"properties\":{\"channel_id\":123,\"broadcast_id\":\"456\",\"player\":\"site\",\"user_id\":789}}]''"
  "expected_text 123 (JStr ''say \"hi\"'') 789 =
     ''[{\"event\":\"minute-watched\",\"properties\":{\"channel_id\":123,\"broadcast_id\":\"say '' @ [CHR 0x5C] @ ''\"hi'' @ [CHR 0x5C] @ ''\"\",\"player\":\"site\",\"user_id\":789}}]''"
  by (simp_all add: expected_text_def show_int_examples json_dumps_examples
      del: json_dumps.simps)

theorem encode_payload_decodes_witness:
  "(\<exists>e bytes js.
     encode_payload 789 (example_channel\<lparr>id_chan := 123, stream := Some example_stream\<rparr>) =
       Inr [(''data'', e)] \<and>
     e = ''W3siZXZlbnQiOiJtaW51dGUtd2F0Y2hlZCIsInByb3BlcnRpZXMiOnsiY2hhbm5lbF9pZCI6MTIzLCJicm9hZGNhc3RfaWQiOjQ1NiwicGxheWVyIjoic2l0ZSIsInVzZXJfaWQiOjc4OX19XQ=='' \<and>
     b64decode e = Some bytes \<and> decode_utf8 bytes = Inr js \<and>
     js = ''[{\"event\":\"minute-watched\",\"properties\":{\"channel_id\":123,\"broadcast_id\":456,\"player\":\"site\",\"user_id\":789}}]'' \<and>
     list_all (\<lambda>c. \<not> is_ws c) js \<and>
     json_loads js =
       Some (JArr [JObj [(''event'', JStr ''minute-watched''),
                   (''properties'',
                    JObj [(''channel_id'', JInt 123), (''broadcast_id'', JInt 456),
                          (''player'', JStr ''site''), (''user_id'', JInt 789)])]])) \<and>
   (\<exists>e bytes js.
     encode_payload 789
         (example_channel\<lparr>id_chan := 123, stream := Some example_entry_stream\<rparr>) =
       Inr [(''data'', e)] \<and>
     e = ''W3siZXZlbnQiOiJtaW51dGUtd2F0Y2hlZCIsInByb3BlcnRpZXMiOnsiY2hhbm5lbF9pZCI6MTIzLCJicm9hZGNhc3RfaWQiOiI0NTYiLCJwbGF5ZXIiOiJzaXRlIiwidXNlcl9pZCI6Nzg5fX1d'' \<and>
     b64decode e = Some bytes \<and> decode_utf8 bytes = Inr js \<and>
     js = ''[{\"event\":\"minute-watched\",\"properties\":{\"channel_id\":123,\"broadcast_id\":\"456\",\"player\":\"site\",\"user_id\":789}}]'' \<and>
     list_all (\<lambda>c. \<not> is_ws c) js \<and>
     json_loads js =
       Some (JArr [JObj [(''event'', JStr ''minute-watched''),
                   (''properties'',
                    JObj [(''channel_id'', JInt 123), (''broadcast_id'', JStr ''456''),
                          (''player'', JStr ''site''), (''user_id'', JInt 789)])]])) \<and>
   (\<exists>e bytes js.
     encode_payload 789
         (example_channel\<lparr>id_chan := 123, stream := Some example_quoted_stream\<rparr>) =
       Inr [(''data'', e)] \<and>
     e = ''W3siZXZlbnQiOiJtaW51dGUtd2F0Y2hlZCIsInByb3BlcnRpZXMiOnsiY2hhbm5lbF9pZCI6MTIzLCJicm9hZGNhc3RfaWQiOiJzYXkgXCJoaVwiIiwicGxheWVyIjoic2l0ZSIsInVzZXJfaWQiOjc4OX19XQ=='' \<and>
     b64decode e = Some bytes \<and> decode_utf8 bytes = Inr js \<and>
     js = ''[{\"event\":\"minute-watched\",\"properties\":{\"channel_id\":123,\"broadcast_id\":\"say '' @ [CHR 0x5C] @ ''\"hi'' @ [CHR 0x5C] @ ''\"\",\"player\":\"site\",\"user_id\":789}}]'' \<and>
     \<not> bare_ws Outside js \<and>
     json_loads js =
       Some (JArr [JObj [(''event'', JStr ''minute-watched''),
                   (''properties'',
                    JObj [(''channel_id'', JInt 123), (''broadcast_id'', JStr ''say \"hi\"''),
                          (''player'', JStr ''site''), (''user_id'', JInt 789)])]]))"
proof (intro conjI)
  let ?ch = "example_channel\<lparr>id_chan := 123, stream := Some example_stream\<rparr>"
  have s: "stream ?ch = Some example_stream" by simp
  have b: "broadcast_id example_stream = JInt 456" by (simp add: example_stream_def)
  from encode_payload_decodes [OF s, of 789]
  obtain e bytes js where e: "encode_payload 789 ?ch = Inr [(''data'', e)]"
    and d: "b64decode e = Some bytes" and u: "decode_utf8 bytes = Inr js"
    and t: "js = expected_text 123 (JInt 456) 789"
    and w: "list_all (\<lambda>c. \<not> is_ws c) js"
    and l: "json_loads js = Some (expected_payload 123 (JInt 456) 789)"
    by (auto simp add: b)
  from e encode_payload_text [OF s, of 789]
  have "e = b64encode (expected_text 123 (JInt 456) 789)" by (simp add: b)
  then have e': "e = ''W3siZXZlbnQiOiJtaW51dGUtd2F0Y2hlZCIsInByb3BlcnRpZXMiOnsiY2hhbm5lbF9pZCI6MTIzLCJicm9hZGNhc3RfaWQiOjQ1NiwicGxheWVyIjoic2l0ZSIsInVzZXJfaWQiOjc4OX19XQ==''"
    by (simp only: expected_text_examples b64encode_examples)
  from t have t': "js = ''[{\"event\":\"minute-watched\",\"properties\":{\"channel_id\":123,\"broadcast_id\":456,\"player\":\"site\",\"user_id\":789}}]''"
    by (simp only: expected_text_examples)
  from l have l': "json_loads js =
       Some (JArr [JObj [(''event'', JStr ''minute-watched''),
                   (''properties'',
                    JObj [(''channel_id'', JInt 123), (''broadcast_id'', JInt 456),
                          (''player'', JStr ''site''), (''user_id'', JInt 789)])]])"
    by (simp only: expected_payload_def)
  from e e' d u t' w l'
  show "\<exists>e bytes js.
     encode_payload 789 ?ch = Inr [(''data'', e)] \<and>
     e = ''W3siZXZlbnQiOiJtaW51dGUtd2F0Y2hlZCIsInByb3BlcnRpZXMiOnsiY2hhbm5lbF9pZCI6MTIzLCJicm9hZGNhc3RfaWQiOjQ1NiwicGxheWVyIjoic2l0ZSIsInVzZXJfaWQiOjc4OX19XQ=='' \<and>
     b64decode e = Some bytes \<and> decode_utf8 bytes = Inr js \<and>
     js = ''[{\"event\":\"minute-watched\",\"properties\":{\"channel_id\":123,\"broadcast_id\":456,\"player\":\"site\",\"user_id\":789}}]'' \<and>
     list_all (\<lambda>c. \<not> is_ws c) js \<and>
     json_loads js =
       Some (JArr [JObj [(''event'', JStr ''minute-watched''),
                   (''properties'',
                    JObj [(''channel_id'', JInt 123), (''broadcast_id'', JInt 456),
                          (''player'', JStr ''site''), (''user_id'', JInt 789)])]])"
    by blast
next
  let ?ch = "example_channel\<lparr>id_chan := 123, stream := Some example_entry_stream\<rparr>"
  have s: "stream ?ch = Some example_entry_stream" by simp
  have b: "broadcast_id example_entry_stream = JStr ''456''"
    by (simp add: example_entry_stream_def)
  have nw: "list_all (\<lambda>c. \<not> is_ws c) (json_dumps (JStr ''456''))"
    by (simp add: json_dumps_examples is_ws_def del: json_dumps.simps)
  from encode_payload_decodes [OF s, of 789]
  obtain e bytes js where e: "encode_payload 789 ?ch = Inr [(''data'', e)]"
    and d: "b64decode e = Some bytes" and u: "decode_utf8 bytes = Inr js"
    and t: "js = expected_text 123 (JStr ''456'') 789"
    and w: "list_all (\<lambda>c. \<not> is_ws c) js"
    and l: "json_loads js = Some (expected_payload 123 (JStr ''456'') 789)"
    using nw by (auto simp add: b simp del: json_dumps.simps)
  from e encode_payload_text [OF s, of 789]
  have "e = b64encode (expected_text 123 (JStr ''456'') 789)" by (simp add: b)
  then have e': "e = ''W3siZXZlbnQiOiJtaW51dGUtd2F0Y2hlZCIsInByb3BlcnRpZXMiOnsiY2hhbm5lbF9pZCI6MTIzLCJicm9hZGNhc3RfaWQiOiI0NTYiLCJwbGF5ZXIiOiJzaXRlIiwidXNlcl9pZCI6Nzg5fX1d''"
    by (simp only: expected_text_examples b64encode_examples)
  from t have t': "js = ''[{\"event\":\"minute-watched\",\"properties\":{\"channel_id\":123,\"broadcast_id\":\"456\",\"player\":\"site\",\"user_id\":789}}]''"
    by (simp only: expected_text_examples)
  from l have l': "json_loads js =
       Some (JArr [JObj [(''event'', JStr ''minute-watched''),
                   (''properties'',
                    JObj [(''channel_id'', JInt 123), (''broadcast_id'', JStr ''456''),
                          (''player'', JStr ''site''), (''user_id'', JInt 789)])]])"
    by (simp only: expected_payload_def)
  from e e' d u t' w l'
  show "\<exists>e bytes js.
     encode_payload 789 ?ch = Inr [(''data'', e)] \<and>
     e = ''W3siZXZlbnQiOiJtaW51dGUtd2F0Y2hlZCIsInByb3BlcnRpZXMiOnsiY2hhbm5lbF9pZCI6MTIzLCJicm9hZGNhc3RfaWQiOiI0NTYiLCJwbGF5ZXIiOiJzaXRlIiwidXNlcl9pZCI6Nzg5fX1d'' \<and>
     b64decode e = Some bytes \<and> decode_utf8 bytes = Inr js \<and>
     js = ''[{\"event\":\"minute-watched\",\"properties\":{\"channel_id\":123,\"broadcast_id\":\"456\",\"player\":\"site\",\"user_id\":789}}]'' \<and>
     list_all (\<lambda>c. \<not> is_ws c) js \<and>
     json_loads js =
       Some (JArr [JObj [(''event'', JStr ''minute-watched''),
                   (''properties'',
                    JObj [(''channel_id'', JInt 123), (''broadcast_id'', JStr ''456''),
                          (''player'', JStr ''site''), (''user_id'', JInt 789)])]])"
    by blast
next
  let ?ch = "example_channel\<lparr>id_chan := 123, stream := Some example_quoted_stream\<rparr>"
  have s: "stream ?ch = Some example_quoted_stream" by simp
  have b: "broadcast_id example_quoted_stream = JStr ''say \"hi\"''"
    by (simp add: example_quoted_stream_def)
  from encode_payload_decodes [OF s, of 789]
  obtain e bytes js where e: "encode_payload 789 ?ch = Inr [(''data'', e)]"
    and d: "b64decode e = Some bytes" and u: "decode_utf8 bytes = Inr js"
    and t: "js = expected_text 123 (JStr ''say \"hi\"'') 789"
    and w: "\<not> bare_ws Outside js"
    and l: "json_loads js = Some (expected_payload 123 (JStr ''say \"hi\"'') 789)"
    by (auto simp add: b simp del: json_dumps.simps)
  from e encode_payload_text [OF s, of 789]
  have "e = b64encode (expected_text 123 (JStr ''say \"hi\"'') 789)" by (simp add: b)
  then have e': "e = ''W3siZXZlbnQiOiJtaW51dGUtd2F0Y2hlZCIsInByb3BlcnRpZXMiOnsiY2hhbm5lbF9pZCI6MTIzLCJicm9hZGNhc3RfaWQiOiJzYXkgXCJoaVwiIiwicGxheWVyIjoic2l0ZSIsInVzZXJfaWQiOjc4OX19XQ==''"
    by (simp only: expected_text_examples b64encode_examples)
  from t have t': "js = ''[{\"event\":\"minute-watched\",\"properties\":{\"channel_id\":123,\"broadcast_id\":\"say '' @ [CHR 0x5C] @ ''\"hi'' @ [CHR 0x5C] @ ''\"\",\"player\":\"site\",\"user_id\":789}}]''"
    by (simp only: expected_text_examples)
  from l have l': "json_loads js =
       Some (JArr [JObj [(''event'', JStr ''minute-watched''),
                   (''properties'',
                    JObj [(''channel_id'', JInt 123), (''broadcast_id'', JStr ''say \"hi\"''),
                          (''player'', JStr ''site''), (''user_id'', JInt 789)])]])"
    by (simp only: expected_payload_def)
  from e e' d u t' w l'
  show "\<exists>e bytes js.
     encode_payload 789 ?ch = Inr [(''data'', e)] \<and>
     e = ''W3siZXZlbnQiOiJtaW51dGUtd2F0Y2hlZCIsInByb3BlcnRpZXMiOnsiY2hhbm5lbF9pZCI6MTIzLCJicm9hZGNhc3RfaWQiOiJzYXkgXCJoaVwiIiwicGxheWVyIjoic2l0ZSIsInVzZXJfaWQiOjc4OX19XQ=='' \<and>
     b64decode e = Some bytes \<and> decode_utf8 bytes = Inr js \<and>
     js = ''[{\"event\":\"minute-watched\",\"properties\":{\"channel_id\":123,\"broadcast_id\":\"say '' @ [CHR 0x5C] @ ''\"hi'' @ [CHR 0x5C] @ ''\"\",\"player\":\"site\",\"user_id\":789}}]'' \<and>
     \<not> bare_ws Outside js \<and>
     json_loads js =
       Some (JArr [JObj [(''event'', JStr ''minute-watched''),
                   (''properties'',
                    JObj [(''channel_id'', JInt 123), (''broadcast_id'', JStr ''say \"hi\"''),
                          (''player'', JStr ''site''), (''user_id'', JInt 789)])]])"
    by blast
qed

end
